theory Spec2Isabelle
  imports Complex_Main "HOL-Library.Word" "HOL-Library.Log_Nat" "HOL-Library.Code_Target_Numeral"
begin

unbundle bit_operations_syntax

section \<open>Values shared by the protocol engine\<close>

text \<open>
  A Python \<open>bytes\<close> object is a sequence of integers in \<open>0..255\<close>: a list of 8-bit
  words. Python's integers are unbounded and are modelled by \<open>int\<close>. Exceptions are
  values of \<open>py_error\<close>; a function that can raise returns \<open>py_error + 'a\<close>.
\<close>

type_synonym byte = "8 word"

datatype py_error =
    RuntimeError string
  | ValueError
  | IndexError
  | NameError
  | OverflowError
  | ZeroDivisionError

text \<open>\<open>bytes(iterable_of_ints)\<close>: raises \<open>ValueError\<close> unless every item is in \<open>range(256)\<close>.\<close>

definition py_bytes :: "int list \<Rightarrow> py_error + byte list" where
  "py_bytes xs =
     (if list_all (\<lambda>x. 0 \<le> x \<and> x \<le> 255) xs then Inr (map word_of_int xs) else Inl ValueError)"

section \<open>utils.py: the checksum\<close>

text \<open>
  \<^verbatim>\<open>
  def calc_crc(data: bytes) -> int:
      crc = 0x0000
      for b in data:
          crc ^= b << 8
          for _ in range(8):
              if crc & 0x8000:
                  crc = (crc << 1) ^ 0x1021
              else:
                  crc <<= 1
              crc &= 0xFFFF
      return crc
  \<close>
  The register is a Python integer, so the model computes on \<open>int\<close> and keeps the
  masking with \<open>0xFFFF = 65535\<close> that the source writes; \<open>0x8000 = 32768\<close> and
  \<open>0x1021 = 4129\<close>.
\<close>

definition crc_bit :: "int \<Rightarrow> int" where
  "crc_bit crc =
     (if crc AND 32768 \<noteq> 0 then (push_bit 1 crc) XOR 4129 else push_bit 1 crc) AND 65535"

fun crc_bits :: "nat \<Rightarrow> int \<Rightarrow> int" where
  "crc_bits 0 crc = crc"
| "crc_bits (Suc n) crc = crc_bits n (crc_bit crc)"

definition crc_byte :: "int \<Rightarrow> byte \<Rightarrow> int" where
  "crc_byte crc b = crc_bits 8 (crc XOR push_bit 8 (uint b))"

definition calc_crc :: "byte list \<Rightarrow> int" where
  "calc_crc data = foldl crc_byte 0 data"

subsection \<open>The checksum as the specification words it\<close>

text \<open>
  A 16-bit register that starts at \<open>0x0000\<close>; each input byte is XORed into the high
  byte; then eight times: if the top bit is set, shift left and XOR with the polynomial
  \<open>0x1021\<close>, else shift left. The register type does the masking to 16 bits. There is
  no final XOR.
\<close>

definition reference_bit :: "16 word \<Rightarrow> 16 word" where
  "reference_bit r = (if bit r 15 then push_bit 1 r XOR 4129 else push_bit 1 r)"

definition reference_byte :: "16 word \<Rightarrow> byte \<Rightarrow> 16 word" where
  "reference_byte r b = (reference_bit ^^ 8) (r XOR push_bit 8 (ucast b))"

definition reference_crc :: "byte list \<Rightarrow> 16 word" where
  "reference_crc bs = foldl reference_byte 0 bs"

section \<open>driver.py: the link session and outbound framing\<close>

text \<open>
  The driver object: whether the serial port is open, and the block counter
  \<open>_tx_number\<close>, which \<open>__init__\<close> sets to 0.
\<close>

record driver =
  is_open :: bool
  tx_number :: int

definition init_driver :: driver where
  "init_driver = \<lparr>is_open = False, tx_number = 0\<rparr>"

definition open_port :: "driver \<Rightarrow> driver" where
  "open_port d = d\<lparr>is_open := True\<rparr>"

text \<open>
  \<^verbatim>\<open>
  def _next_tx(self) -> int:
      self._tx_number = (self._tx_number % 0x0F) + 1
      return self._tx_number
  \<close>
  Python's \<open>%\<close> with a positive modulus is \<open>mod\<close> on \<open>int\<close>.
\<close>

definition next_tx :: "driver \<Rightarrow> int \<times> driver" where
  "next_tx d = (let n = (tx_number d mod 15) + 1 in (n, d\<lparr>tx_number := n\<rparr>))"

text \<open>
  \<open>send_command\<close> of \<open>driver.py\<close>. The model returns the packet handed to
  \<open>ser.write\<close> together with the driver after the call; the reply that the source then
  reads from the port comes from the device and is an input of \<open>parse_response\<close>.
  The counter is advanced before the packet is built, so it stays advanced when
  \<open>bytes(...)\<close> raises.
\<close>

definition send_command :: "driver \<Rightarrow> int \<Rightarrow> int \<Rightarrow> (py_error + byte list) \<times> driver" where
  "send_command d pump_id dcc =
     (if \<not> is_open d then (Inl (RuntimeError ''Serial port is not open''), d)
      else
        let addr = 80 + pump_id;
            (txn, d') = next_tx d;
            ctrl = 128 OR push_bit 4 (txn AND 15)
        in case py_bytes [1, 1] of Inl e \<Rightarrow> (Inl e, d')
           | Inr cd1 \<Rightarrow>
         (case py_bytes [dcc] of Inl e \<Rightarrow> (Inl e, d')
           | Inr dccb \<Rightarrow>
         (case py_bytes [addr, ctrl] of Inl e \<Rightarrow> (Inl e, d')
           | Inr hdr \<Rightarrow>
             let block = hdr @ (cd1 @ dccb);
                 crc = calc_crc block
             in (case py_bytes [crc AND 255, drop_bit 8 crc AND 255] of Inl e \<Rightarrow> (Inl e, d')
                 | Inr crc_bytes \<Rightarrow> (Inr (block @ crc_bytes @ [3, 250]), d')))))"

section \<open>utils.py: the BCD codec\<close>

subsection \<open>Decimal strings\<close>

text \<open>
  The codec goes through Python's string formatting and \<open>int(...)\<close> parsing, so both
  are modelled on \<open>string\<close>. \<open>str_nat\<close> is \<open>str(n)\<close> for \<open>n \<ge> 0\<close>.
\<close>

definition digit_char :: "nat \<Rightarrow> char" where
  "digit_char d = ''0123456789ABCDEF'' ! d"

definition is_digit :: "char \<Rightarrow> bool" where
  "is_digit c = (c \<in> set ''0123456789'')"

definition digit_val :: "char \<Rightarrow> nat" where
  "digit_val c = of_char c - 48"

fun str_nat :: "nat \<Rightarrow> string" where
  "str_nat n = (if n < 10 then [digit_char n] else str_nat (n div 10) @ [digit_char (n mod 10)])"

declare str_nat.simps [simp del]

definition py_str :: "int \<Rightarrow> string" where
  "py_str v = (if v < 0 then CHR ''-'' # str_nat (nat (- v)) else str_nat (nat v))"

definition zfill :: "nat \<Rightarrow> string \<Rightarrow> string" where
  "zfill w s = replicate (w - length s) CHR ''0'' @ s"

text \<open>
  \<open>f"{value:0{width}d}"\<close>: the decimal rendering, padded with zeros between the sign
  and the digits up to \<open>width\<close> characters in all; a rendering that is already longer
  is left as it is.
\<close>

definition format_0d :: "int \<Rightarrow> nat \<Rightarrow> string" where
  "format_0d v w =
     (if v < 0 then CHR ''-'' # zfill (w - 1) (str_nat (nat (- v))) else zfill w (str_nat (nat v)))"

text \<open>\<open>f"{b:02X}"\<close> for a byte: two upper-case hexadecimal digits.\<close>

definition format_02X :: "byte \<Rightarrow> string" where
  "format_02X b = [digit_char (unat b div 16), digit_char (unat b mod 16)]"

definition digits_val :: "string \<Rightarrow> nat" where
  "digits_val s = foldl (\<lambda>a c. 10 * a + digit_val c) 0 s"

text \<open>
  CPython caps the number of decimal digits in a conversion between \<open>int\<close> and
  \<open>str\<close>: beyond \<open>sys.get_int_max_str_digits()\<close> digits, 4300 unless configured
  otherwise, the conversion raises \<open>ValueError\<close>. Leading zeros of the string count;
  the sign and the padding of a format do not.
\<close>

definition int_max_str_digits :: nat where
  "int_max_str_digits = 4300"

text \<open>
  \<open>int(s)\<close> and \<open>int(s, 10)\<close> on the strings that occur here: an optional sign followed
  by one or more ASCII digits, at most \<open>int_max_str_digits\<close> of them; anything else,
  the empty string included, raises \<open>ValueError\<close>. (Python also accepts surrounding
  white space and underscores between digits; no caller in this program produces
  them.)
\<close>

definition py_int :: "string \<Rightarrow> py_error + int" where
  "py_int s =
     (case s of
        [] \<Rightarrow> Inl ValueError
      | c # r \<Rightarrow>
          if c = CHR ''-'' \<or> c = CHR ''+'' then
            (if r \<noteq> [] \<and> list_all is_digit r \<and> length r \<le> int_max_str_digits
             then Inr (if c = CHR ''-'' then - int (digits_val r) else int (digits_val r))
             else Inl ValueError)
          else if list_all is_digit s \<and> length s \<le> int_max_str_digits
          then Inr (int (digits_val s))
          else Inl ValueError)"

text \<open>Evaluating a sequence of computations in order; the first exception wins.\<close>

fun collect :: "(py_error + 'a) list \<Rightarrow> py_error + 'a list" where
  "collect [] = Inr []"
| "collect (Inl e # rs) = Inl e"
| "collect (Inr v # rs) = (case collect rs of Inl e \<Rightarrow> Inl e | Inr vs \<Rightarrow> Inr (v # vs))"

text \<open>\<open>range(0, n, 2)\<close>.\<close>

definition range_step2 :: "nat \<Rightarrow> nat list" where
  "range_step2 n = map (\<lambda>k. 2 * k) [0 ..< (n + 1) div 2]"

subsection \<open>Packing and unpacking\<close>

text \<open>
  \<^verbatim>\<open>
  def _int_to_bcd(value: int, digit_count: int) -> bytes:
      s = f"{value:0{digit_count}d}"
      return bytes(int(s[i : i + 2], 10) for i in range(0, digit_count, 2))
  \<close>
  Formatting \<open>value\<close> is an \<open>int\<close> to \<open>str\<close> conversion and falls under the digit cap.
\<close>

definition int_to_bcd :: "int \<Rightarrow> nat \<Rightarrow> py_error + byte list" where
  "int_to_bcd v digit_count =
     (if int_max_str_digits < length (str_nat (nat \<bar>v\<bar>)) then Inl ValueError
      else
        let s = format_0d v digit_count
        in case collect (map (\<lambda>i. py_int (take 2 (drop i s))) (range_step2 digit_count)) of
             Inl e \<Rightarrow> Inl e
           | Inr vs \<Rightarrow> py_bytes vs)"

subsection \<open>Python floats\<close>

text \<open>
  A Python float is an IEEE 754 binary64 value: a finite number with a 53-bit
  significand and an exponent between \<open>-1074\<close> and \<open>971\<close>, an infinity, or NaN. A
  finite value is modelled by the real number it denotes; the sign of zero is not
  kept (nothing below tells \<open>-0.0\<close> from \<open>0.0\<close>).
\<close>

datatype py_float = Finite real | PosInf | NegInf | NaN

text \<open>To the nearest integer, ties to the even one.\<close>

definition round_half_even :: "real \<Rightarrow> int" where
  "round_half_even x =
     (let f = \<lfloor>x\<rfloor>; r = x - of_int f
      in if r < 1 / 2 then f else if 1 / 2 < r then f + 1 else if even f then f else f + 1)"

text \<open>
  Rounding a real number to binary64, to nearest with ties to even: the spacing of
  the doubles around \<open>x\<close> is \<open>2 ^ ulp_exponent x\<close> (\<open>2 ^ -1074\<close> in the subnormal
  range), and a result of magnitude \<open>2 ^ 1024\<close> is an infinity.
\<close>

definition ulp_exponent :: "real \<Rightarrow> int" where
  "ulp_exponent x = max (\<lfloor>log 2 \<bar>x\<bar>\<rfloor> - 52) (- 1074)"

definition to_double :: "real \<Rightarrow> py_float" where
  "to_double x =
     (if x = 0 then Finite 0
      else
        let q = 2 powi ulp_exponent x;
            y = of_int (round_half_even (x / q)) * q
        in if 2 ^ 1024 \<le> y then PosInf
           else if y \<le> - (2 ^ 1024) then NegInf
           else Finite y)"

fun float_sgn :: "py_float \<Rightarrow> int" where
  "float_sgn (Finite a) = (if a = 0 then 0 else if 0 < a then 1 else - 1)"
| "float_sgn PosInf = 1"
| "float_sgn NegInf = - 1"
| "float_sgn NaN = 0"

text \<open>The product of two floats; \<open>inf * 0\<close> is NaN.\<close>

fun float_mul :: "py_float \<Rightarrow> py_float \<Rightarrow> py_float" where
  "float_mul (Finite a) (Finite b) = to_double (a * b)"
| "float_mul NaN y = NaN"
| "float_mul x NaN = NaN"
| "float_mul x y =
     (let s = float_sgn x * float_sgn y
      in if s = 0 then NaN else if 0 < s then PosInf else NegInf)"

text \<open>
  An \<open>int\<close> operand of a float operation is converted first; the conversion is
  correctly rounded and raises \<open>OverflowError\<close> for an \<open>int\<close> beyond the float range.
\<close>

definition py_float_of_int :: "int \<Rightarrow> py_error + py_float" where
  "py_float_of_int i =
     (case to_double (of_int i) of
        Finite y \<Rightarrow> Inr (Finite y)
      | _ \<Rightarrow> Inl OverflowError)"

text \<open>
  \<open>round(x)\<close> on a float gives an \<open>int\<close>; it raises \<open>OverflowError\<close> on an infinity
  and \<open>ValueError\<close> on NaN.
\<close>

fun py_round :: "py_float \<Rightarrow> py_error + int" where
  "py_round (Finite x) = Inr (round_half_even x)"
| "py_round NaN = Inl ValueError"
| "py_round _ = Inl OverflowError"

text \<open>
  \<open>a / b\<close> on two \<open>int\<close>s: the correctly rounded quotient, \<open>ZeroDivisionError\<close> for
  \<open>b = 0\<close>, \<open>OverflowError\<close> when the quotient is beyond the float range.
\<close>

definition py_truediv :: "int \<Rightarrow> int \<Rightarrow> py_error + py_float" where
  "py_truediv a b =
     (if b = 0 then Inl ZeroDivisionError
      else case to_double (of_int a / of_int b) of
             Finite y \<Rightarrow> Inr (Finite y)
           | _ \<Rightarrow> Inl OverflowError)"

subsection \<open>Packing and unpacking, continued\<close>

text \<open>
  \<^verbatim>\<open>
  def bcd_pack(number: float, *, decimals: int, length: int) -> bytes:
      scaled = int(round(number * (10 ** decimals)))
      digit_count = length * 2
      return _int_to_bcd(scaled, digit_count)
  \<close>
  \<open>decimals\<close> and \<open>length\<close> are counts and are modelled as natural numbers (the
  callers pass 2, 3 and 4). \<open>scaled_value\<close> is the first line.
\<close>

definition scaled_value :: "py_float \<Rightarrow> nat \<Rightarrow> py_error + int" where
  "scaled_value number decimals =
     (case py_float_of_int (10 ^ decimals) of
        Inl e \<Rightarrow> Inl e
      | Inr p \<Rightarrow> py_round (float_mul number p))"

definition bcd_pack :: "py_float \<Rightarrow> nat \<Rightarrow> nat \<Rightarrow> py_error + byte list" where
  "bcd_pack number decimals len =
     (case scaled_value number decimals of
        Inl e \<Rightarrow> Inl e
      | Inr scaled \<Rightarrow>
          let digit_count = len * 2
          in int_to_bcd scaled digit_count)"

text \<open>
  \<^verbatim>\<open>
  def bcd_unpack(bcd: bytes, *, decimals: int) -> float:
      digits = "".join(f"{byte:02d}" for byte in bcd)
      int_val = int(digits)
      return int_val / (10 ** decimals)
  \<close>
\<close>

definition bcd_unpack :: "byte list \<Rightarrow> nat \<Rightarrow> py_error + py_float" where
  "bcd_unpack bcd decimals =
     (let digits = concat (map (\<lambda>b. format_0d (uint b) 2) bcd)
      in case py_int digits of
           Inl e \<Rightarrow> Inl e
         | Inr int_val \<Rightarrow> py_truediv int_val (10 ^ decimals))"

text \<open>
  The numbers read off a digit string two characters at a time, \<open>10 * tens + units\<close>
  for each adjacent pair: what \<open>_int_to_bcd\<close> hands to \<open>bytes\<close>.
\<close>

fun digit_pairs :: "string \<Rightarrow> int list" where
  "digit_pairs (a # b # r) = int (10 * digit_val a + digit_val b) # digit_pairs r"
| "digit_pairs r = []"

section \<open>Decoding a reply\<close>

text \<open>
  \<open>parse_response\<close> returns a Python dict from string keys to values of several
  types: a map into \<open>py_value\<close>. An exception aborts the call, and the dict built so
  far is lost with it.
\<close>

datatype py_value = PStr string | PFloat py_float | PInt int | PBool bool | PNone

type_synonym py_dict = "string \<rightharpoonup> py_value"

subsection \<open>settings.py\<close>

definition PRICE_DECIMALS :: nat where "PRICE_DECIMALS = 2"
definition VOL_DECIMALS :: nat where "VOL_DECIMALS = 3"
definition AMT_DECIMALS :: nat where "AMT_DECIMALS = 2"

subsection \<open>The record loop\<close>

text \<open>
  Both drivers walk the payload with the same loop; only the body that interprets one
  record differs, so the loop takes it as the argument \<open>decode\<close>:
  \<^verbatim>\<open>
  i = 0
  while i < len(core):
      trans = core[i]
      ln    = core[i+1]
      content = core[i+2 : i+2+ln]
      ...                       # decode(data, trans, content)
      i += 2 + ln
  return data
  \<close>
  \<open>core[i+1]\<close> raises \<open>IndexError\<close> when only one byte is left; the slice
  \<open>core[i+2 : i+2+ln]\<close> never raises and is shorter than \<open>ln\<close> when the bytes run out.
\<close>

function record_loop ::
  "(py_dict \<Rightarrow> byte \<Rightarrow> byte list \<Rightarrow> py_error + py_dict) \<Rightarrow>
   byte list \<Rightarrow> nat \<Rightarrow> py_dict \<Rightarrow> py_error + py_dict" where
  "record_loop decode core i data =
     (if i < length core then
        (if length core \<le> i + 1 then Inl IndexError
         else
           let trans_code = core ! i;
               ln = unat (core ! (i + 1));
               content = take ln (drop (i + 2) core)
           in case decode data trans_code content of
                Inl e \<Rightarrow> Inl e
              | Inr data' \<Rightarrow> record_loop decode core (i + 2 + ln) data')
      else Inr data)"
  by pat_completeness auto
termination
  by (relation "measure (\<lambda>(decode, core, i, data). length core - i)") auto

declare record_loop.simps [simp del]

subsection \<open>driver.py\<close>

definition status_names :: "(int \<times> string) list" where
  "status_names =
     [(0, ''NOT_PROGRAMMED''), (1, ''RESET''), (2, ''AUTHORIZED''), (4, ''FILLING''),
      (5, ''FILLING_COMPLETE''), (6, ''MAX_REACHED''), (7, ''SWITCHED_OFF'')]"

text \<open>\<open>mapping.get(st, f"UNKNOWN({st})")\<close>.\<close>

definition status_text :: "int \<Rightarrow> string" where
  "status_text st =
     (case map_of status_names st of
        Some s \<Rightarrow> s
      | None \<Rightarrow> ''UNKNOWN('' @ py_str st @ '')'')"

text \<open>
  \<^verbatim>\<open>
  grades = 0
  for idx, b in enumerate(grade_bytes):
      if b != 0:
          grades |= (1 << idx)
  \<close>
\<close>

definition grades_of :: "byte list \<Rightarrow> int" where
  "grades_of grade_bytes =
     foldl (\<lambda>grades (idx, b). if b = 0 then grades else grades OR push_bit idx 1)
       0 (enumerate 0 grade_bytes)"

text \<open>
  The body of the loop in \<open>driver.py\<close>, one branch per transaction code. \<open>content[0]\<close>
  and \<open>content[3]\<close> raise \<open>IndexError\<close> on a content that is too short, the slices
  \<open>content[0:4]\<close>, \<open>content[4:8]\<close>, \<open>content[0:3]\<close> and \<open>content[-15:]\<close> do not.
\<close>

definition decode_dc :: "py_dict \<Rightarrow> byte \<Rightarrow> byte list \<Rightarrow> py_error + py_dict" where
  "decode_dc data trans_code content =
     (if trans_code = 1 then
        (case content of
           [] \<Rightarrow> Inl IndexError
         | st # _ \<Rightarrow> Inr (data(''pump_status'' \<mapsto> PStr (status_text (uint st)))))
      else if trans_code = 2 then
        (case bcd_unpack (take 4 content) VOL_DECIMALS of
           Inl e \<Rightarrow> Inl e
         | Inr vol \<Rightarrow>
        (case bcd_unpack (take 4 (drop 4 content)) AMT_DECIMALS of
           Inl e \<Rightarrow> Inl e
         | Inr amt \<Rightarrow>
             Inr (data(''current_volume'' \<mapsto> PFloat vol, ''current_amount'' \<mapsto> PFloat amt))))
      else if trans_code = 3 then
        (case bcd_unpack (take 3 content) PRICE_DECIMALS of
           Inl e \<Rightarrow> Inl e
         | Inr price \<Rightarrow>
             if length content \<le> 3 then Inl IndexError
             else
               let noz = uint (content ! 3) AND 15;
                   outf = (drop_bit 4 (uint (content ! 3) AND 16) \<noteq> 0)
               in Inr (data(''current_nozzle'' \<mapsto> (if noz = 0 then PNone else PInt noz),
                            ''nozzle_out'' \<mapsto> PBool outf,
                            ''current_price'' \<mapsto> PFloat price)))
      else if trans_code = 7 then
        Inr (data(''grades_mask'' \<mapsto> PInt (grades_of (drop (length content - 15) content))))
      else if trans_code = 9 then
        Inr (data(''pump_identity'' \<mapsto> PStr (concat (map format_02X content))))
      else Inr data)"

definition parse_loop :: "byte list \<Rightarrow> nat \<Rightarrow> py_dict \<Rightarrow> py_error + py_dict" where
  "parse_loop = record_loop decode_dc"

text \<open>
  \<^verbatim>\<open>
  data = {}
  core = resp[2:-2]
  recv_crc = core[-2] | (core[-1] << 8)
  calc = calc_crc(resp[0:-4])
  if recv_crc != calc:
      raise RuntimeError("CRC mismatch")
  i = 0
  while i < len(core): ...
  return data
  \<close>
  \<open>core\<close> still holds the two checksum bytes at its end, and the loop runs over all of
  \<open>core\<close>. \<open>core[-2]\<close> raises \<open>IndexError\<close> when \<open>core\<close> has fewer than two bytes.
\<close>

definition parse_response :: "byte list \<Rightarrow> py_error + py_dict" where
  "parse_response resp =
     (let core = drop 2 (take (length resp - 2) resp)
      in if length core < 2 then Inl IndexError
         else
           let recv_crc = uint (core ! (length core - 2))
                            OR push_bit 8 (uint (core ! (length core - 1)));
               calc = calc_crc (take (length resp - 4) resp)
           in if recv_crc \<noteq> calc then Inl (RuntimeError ''CRC mismatch'')
              else parse_loop core 0 Map.empty)"

subsection \<open>serial_io/driver.py\<close>

definition sio_status_names :: "(int \<times> string) list" where
  "sio_status_names =
     [(0, ''PUMP NOT PROGRAMMED''), (1, ''RESET''), (2, ''AUTHORIZED''), (4, ''FILLING''),
      (5, ''FILLING COMPLETE''), (6, ''MAX REACHED''), (7, ''SWITCHED OFF'')]"

definition sio_status_text :: "int \<Rightarrow> string" where
  "sio_status_text st =
     (case map_of sio_status_names st of
        Some s \<Rightarrow> s
      | None \<Rightarrow> ''UNKNOWN('' @ py_str st @ '')'')"

text \<open>
  The body of the loop in \<open>serial_io/driver.py\<close>. This module imports \<open>serial_io\<close>,
  \<open>logging\<close> and three names of \<open>utils\<close>, and not \<open>settings\<close>: evaluating
  \<open>settings.PRICE_DECIMALS\<close> or \<open>settings.VOL_DECIMALS\<close> raises \<open>NameError\<close>. That
  happens in the branch for code 3 once the content has four bytes or more, and always
  in the branch for code 2.
\<close>

definition sio_decode_dc :: "py_dict \<Rightarrow> byte \<Rightarrow> byte list \<Rightarrow> py_error + py_dict" where
  "sio_decode_dc data trans_code content =
     (if trans_code = 1 then
        (case content of
           [] \<Rightarrow> Inl IndexError
         | status_code # _ \<Rightarrow>
             Inr (data(''pump_status_code'' \<mapsto> PInt (uint status_code),
                       ''pump_status'' \<mapsto> PStr (sio_status_text (uint status_code)))))
      else if trans_code = 3 then
        (if 4 \<le> length content then Inl NameError else Inr data)
      else if trans_code = 2 then Inl NameError
      else Inr data)"

definition sio_parse_loop :: "byte list \<Rightarrow> nat \<Rightarrow> py_dict \<Rightarrow> py_error + py_dict" where
  "sio_parse_loop = record_loop sio_decode_dc"

text \<open>
  \<^verbatim>\<open>
  data = {}
  if len(response) < 5:
      return data
  if response[-2] == 0x03 and response[-1] == 0xFA:
      core_data = response[:-2]
  else:
      core_data = response
  recv_crc_low = core_data[-2]
  recv_crc_high = core_data[-1]
  core_wo_crc = core_data[:-2]
  calc = calc_crc(core_wo_crc)
  if ((calc & 0xFF) != recv_crc_low) or (((calc >> 8) & 0xFF) != recv_crc_high):
      data['error'] = "CRC_ERROR"
  adr = core_wo_crc[0]
  ctrl = core_wo_crc[1]
  payload = core_wo_crc[2:]
  i = 0
  while i < len(payload): ...
  return data
  \<close>
  \<open>core_wo_crc[1]\<close> raises \<open>IndexError\<close> when a terminated reply has only five bytes.
\<close>

definition sio_parse_response :: "byte list \<Rightarrow> py_error + py_dict" where
  "sio_parse_response response =
     (if length response < 5 then Inr Map.empty
      else
        let core_data =
              (if response ! (length response - 2) = 3 \<and> response ! (length response - 1) = 250
               then take (length response - 2) response
               else response);
            recv_crc_low = core_data ! (length core_data - 2);
            recv_crc_high = core_data ! (length core_data - 1);
            core_wo_crc = take (length core_data - 2) core_data;
            calc = calc_crc core_wo_crc;
            data = (if calc AND 255 \<noteq> uint recv_crc_low
                       \<or> drop_bit 8 calc AND 255 \<noteq> uint recv_crc_high
                    then Map.empty(''error'' \<mapsto> PStr ''CRC_ERROR'')
                    else Map.empty)
        in if length core_wo_crc < 2 then Inl IndexError
           else sio_parse_loop (drop 2 core_wo_crc) 0 data)"

subsection \<open>Records on the wire\<close>

text \<open>
  A transaction \<open>(code, payload)\<close> on the wire is \<open>[code, length, payload...]\<close>, as
  the callers build it with \<open>bytes([trans_code, length]) + data_bytes\<close>. The length
  field is one byte, so a payload has at most 255 bytes.
\<close>

definition tx_bytes :: "byte \<times> byte list \<Rightarrow> byte list" where
  "tx_bytes r = fst r # of_nat (length (snd r)) # snd r"

section \<open>The checksum engine\<close>

lemma mask16_int: "(65535::int) = mask 16"
  by (simp add: mask_eq_exp_minus_1)

lemma crc_bit_range: "0 \<le> crc_bit c \<and> crc_bit c < 65536"
proof -
  have "crc_bit c =
      take_bit 16 (if c AND 32768 \<noteq> 0 then (push_bit 1 c) XOR 4129 else push_bit 1 c)"
    unfolding crc_bit_def mask16_int by (simp add: take_bit_eq_mask)
  moreover have "take_bit 16 x < (65536::int)" for x :: int
    using take_bit_int_less_exp[of 16 x] by simp
  ultimately show ?thesis by simp
qed

lemma crc_bit_word: "word_of_int (crc_bit c) = reference_bit (word_of_int c)"
proof -
  have top: "(c AND 32768 \<noteq> 0) = bit c 15"
    using bit_iff_and_push_bit_not_eq_0[of c 15] by simp
  have top_word: "bit (word_of_int c :: 16 word) 15 = bit c 15"
    by (simp add: bit_simps)
  have masked: "(word_of_int (x AND mask 16) :: 16 word) = word_of_int x" for x
    unfolding take_bit_eq_mask[symmetric] by (simp add: word_of_int_eq_iff)
  have "(word_of_int (y XOR 4129) :: 16 word) = word_of_int y XOR word_of_int 4129" for y
    by (rule word_wi_log_defs(4)[symmetric])
  then have poly: "(word_of_int (y XOR 4129) :: 16 word) = word_of_int y XOR 4129" for y
    by simp
  show ?thesis
    unfolding crc_bit_def reference_bit_def top top_word mask16_int masked
    by (simp add: poly)
qed

lemma crc_bits_range:
  "0 \<le> c \<and> c < 65536 \<Longrightarrow> 0 \<le> crc_bits n c \<and> crc_bits n c < 65536"
  by (induction n arbitrary: c) (simp_all add: crc_bit_range)

lemma crc_bits_word: "word_of_int (crc_bits n c) = (reference_bit ^^ n) (word_of_int c)"
  by (induction n arbitrary: c) (simp_all add: crc_bit_word funpow_swap1)

lemma crc_byte_word: "word_of_int (crc_byte c b) = reference_byte (word_of_int c) b"
proof -
  have "(word_of_int (c XOR push_bit 8 (uint b)) :: 16 word) =
      word_of_int c XOR word_of_int (push_bit 8 (uint b))"
    by (rule word_wi_log_defs(4)[symmetric])
  moreover have "(word_of_int (push_bit 8 (uint b)) :: 16 word) = push_bit 8 (ucast b)"
    by (rule bit_word_eqI) (auto simp add: bit_simps)
  ultimately show ?thesis
    by (simp add: crc_byte_def reference_byte_def crc_bits_word)
qed

lemma crc_byte_range:
  assumes "0 \<le> c \<and> c < 65536"
  shows "0 \<le> crc_byte c b \<and> crc_byte c b < 65536"
proof -
  have "crc_byte c b = crc_bits 7 (crc_bit (c XOR push_bit 8 (uint b)))"
    by (simp add: crc_byte_def eval_nat_numeral)
  then show ?thesis using crc_bits_range[OF crc_bit_range] by simp
qed

lemma foldl_crc_byte:
  "0 \<le> c \<and> c < 65536 \<Longrightarrow>
   (0 \<le> foldl crc_byte c bs \<and> foldl crc_byte c bs < 65536) \<and>
   word_of_int (foldl crc_byte c bs) = foldl reference_byte (word_of_int c) bs"
proof (induction bs arbitrary: c)
  case Nil
  then show ?case by simp
next
  case (Cons b bs)
  from Cons.IH[OF crc_byte_range[OF Cons.prems, of b]] show ?case
    by (simp add: crc_byte_word)
qed

lemma calc_crc_range: "0 \<le> calc_crc b \<and> calc_crc b < 65536"
  using foldl_crc_byte[of 0 b] by (simp add: calc_crc_def)

text \<open>
  Claim C2. For every byte sequence, \<open>calc_crc\<close> returns the value of the 16-bit
  reference register (initial value 0, each byte XORed into the high byte, eight
  shift steps with polynomial \<open>0x1021\<close> when the top bit is set, no final XOR), and
  that value lies in \<open>0..0xFFFF\<close>.
\<close>

theorem calc_crc_refines_reference:
  "calc_crc b = uint (reference_crc b) \<and> 0 \<le> calc_crc b \<and> calc_crc b \<le> 65535"
proof -
  have r: "(0 \<le> calc_crc b \<and> calc_crc b < 65536) \<and> word_of_int (calc_crc b) = reference_crc b"
    using foldl_crc_byte[of 0 b] by (simp add: calc_crc_def reference_crc_def)
  then have "uint (reference_crc b) = calc_crc b"
    using uint_word_of_int[of "calc_crc b", where ?'a = 16] by simp
  with r show ?thesis by simp
qed

section \<open>The link session and the outbound block\<close>

lemma next_tx_value: "fst (next_tx d) = tx_number d mod 15 + 1"
  by (simp add: next_tx_def Let_def)

lemma next_tx_state: "snd (next_tx d) = d\<lparr>tx_number := tx_number d mod 15 + 1\<rparr>"
  by (simp add: next_tx_def Let_def)

text \<open>
  Claim C9. Whatever the counter holds, \<open>_next_tx\<close> returns a number in \<open>1..15\<close> and
  stores it as the new counter; after a counter \<open>s\<close> in \<open>1..14\<close> it returns \<open>s + 1\<close>;
  after 15 it returns 1; from the initial counter 0 the first number is 1.
\<close>

theorem next_tx_cyclic:
  "(1 \<le> fst (next_tx d) \<and> fst (next_tx d) \<le> 15)
   \<and> tx_number (snd (next_tx d)) = fst (next_tx d)
   \<and> (1 \<le> tx_number d \<and> tx_number d \<le> 14 \<longrightarrow> fst (next_tx d) = tx_number d + 1)
   \<and> (tx_number d = 15 \<longrightarrow> fst (next_tx d) = 1)
   \<and> fst (next_tx init_driver) = 1"
proof -
  have "0 \<le> tx_number d mod 15" "tx_number d mod 15 < 15"
    by simp_all
  then show ?thesis
    by (auto simp add: next_tx_value next_tx_state init_driver_def)
qed

theorem next_tx_cyclic_witness:
  "fst (next_tx \<lparr>is_open = True, tx_number = 7\<rparr>) = 8
   \<and> fst (next_tx \<lparr>is_open = True, tx_number = 14\<rparr>) = 15
   \<and> fst (next_tx \<lparr>is_open = True, tx_number = 15\<rparr>) = 1
   \<and> tx_number (snd (next_tx \<lparr>is_open = True, tx_number = 15\<rparr>)) = 1"
  using next_tx_cyclic [of "\<lparr>is_open = True, tx_number = 7\<rparr>"]
    next_tx_cyclic [of "\<lparr>is_open = True, tx_number = 14\<rparr>"]
    next_tx_cyclic [of "\<lparr>is_open = True, tx_number = 15\<rparr>"]
  by simp

text \<open>
  Claim C1. With the port open and the counter at its initial value, so that the
  allocated sequence number is 1, \<open>send_command\<close> for pump index 1 and the status
  query (\<open>dcc = 0\<close>) writes \<open>[0x51, 0x90, 0x01, 0x01, 0x00, CRC_LO, CRC_HI, 0x03, 0xFA]\<close>:
  the control byte is \<open>0x90 = 144\<close>, the two checksum bytes are the low and the high
  byte of \<open>calc_crc\<close> over the five bytes from the address to the last transaction
  byte (\<open>0x7DFD\<close>, so \<open>0xFD, 0x7D\<close>), and the terminator \<open>0x03, 0xFA\<close> closes the block.
\<close>

theorem send_command_golden_vector:
  "send_command (open_port init_driver) 1 0 =
     (Inr [81, 144, 1, 1, 0,
           word_of_int (calc_crc [81, 144, 1, 1, 0] AND 255),
           word_of_int (drop_bit 8 (calc_crc [81, 144, 1, 1, 0]) AND 255),
           3, 250],
      \<lparr>is_open = True, tx_number = 1\<rparr>)
   \<and> calc_crc [81, 144, 1, 1, 0] = 32253
   \<and> send_command (open_port init_driver) 1 0 =
     (Inr [81, 144, 1, 1, 0, 253, 125, 3, 250], \<lparr>is_open = True, tx_number = 1\<rparr>)
   \<and> (128 OR push_bit 4 (1 AND 15) :: int) = 144"
  by code_simp

section \<open>Rounding to binary64\<close>

lemma rhe_near: "\<bar>of_int (round_half_even x) - x\<bar> \<le> 1 / 2"
proof -
  have "of_int \<lfloor>x\<rfloor> \<le> x" "x < of_int \<lfloor>x\<rfloor> + 1" by linarith+
  then show ?thesis
    by (auto simp add: round_half_even_def Let_def)
qed

lemma rhe_unique:
  assumes "\<bar>x - of_int k\<bar> < 1 / 2"
  shows "round_half_even x = k"
proof (cases "of_int k \<le> x")
  case True
  with assms have "\<lfloor>x\<rfloor> = k" by (intro floor_unique) linarith+
  with assms True show ?thesis
    by (simp add: round_half_even_def Let_def)
next
  case False
  with assms have f: "\<lfloor>x\<rfloor> = k - 1" by (intro floor_unique) (auto simp add: abs_if split: if_splits)
  from assms False have "x - of_int (k - 1) > 1 / 2" by (auto simp add: abs_if split: if_splits)
  with f show ?thesis
    by (simp add: round_half_even_def Let_def)
qed

lemma rhe_of_int: "round_half_even (of_int k) = k"
  by (rule rhe_unique) simp

lemma rhe_nonneg: "0 \<le> x \<Longrightarrow> 0 \<le> round_half_even x"
  by (auto simp add: round_half_even_def Let_def)

lemma floor_log2_iff:
  assumes "0 < x"
  shows "\<lfloor>log 2 x\<rfloor> = e \<longleftrightarrow> 2 powi e \<le> x \<and> x < 2 powi (e + 1)"
proof -
  have "(2::real) powr real_of_int n = 2 powi n" for n
    by (rule powr_real_of_int') simp_all
  from this[of e] this[of "e + 1"] show ?thesis
    using floor_log_eq_powr_iff[of x 2 e] assms by simp
qed

lemma floor_log2_bounds:
  assumes "0 < x"
  shows "2 powi \<lfloor>log 2 x\<rfloor> \<le> x" and "x < 2 powi (\<lfloor>log 2 x\<rfloor> + 1)"
  using floor_log2_iff[OF assms, of "\<lfloor>log 2 x\<rfloor>"] by simp_all

text \<open>
  The exponent computed on integers, for evaluation: \<open>\<lfloor>log 2 a\<rfloor>\<close> is the bit length of
  \<open>\<lfloor>a\<rfloor>\<close> less one for \<open>a \<ge> 1\<close>, and the negated bit length of \<open>\<lceil>1 / a\<rceil> - 1\<close> below 1.
\<close>

lemma floor_log2_code:
  assumes "0 < a"
  shows "\<lfloor>log 2 a\<rfloor> = (if 1 \<le> a then bitlen \<lfloor>a\<rfloor> - 1 else - bitlen (\<lceil>1 / a\<rceil> - 1))"
proof (cases "1 \<le> a")
  case True
  then have n: "0 < \<lfloor>a\<rfloor>" by simp
  define b where "b = bitlen \<lfloor>a\<rfloor>"
  from bitlen_bounds[OF n] have lo: "2 ^ nat (b - 1) \<le> \<lfloor>a\<rfloor>" and hi: "\<lfloor>a\<rfloor> < 2 ^ nat b"
    by (simp_all add: b_def)
  have b1: "1 \<le> b" using n by (simp add: b_def bitlen_alt_def)
  have "real_of_int (2 ^ nat (b - 1)) \<le> a"
    using lo by (meson le_floor_iff)
  then have l: "2 powi (b - 1) \<le> a" using b1 by (simp add: power_int_def)
  have "\<lfloor>a\<rfloor> + 1 \<le> 2 ^ nat b" using hi by simp
  then have "a < real_of_int (2 ^ nat b)"
    by (meson floor_less_iff less_le_trans zless_add1_eq floor_less_cancel le_less linorder_not_le)
  then have h: "a < 2 powi (b - 1 + 1)" using b1 by (simp add: power_int_def)
  from l h have "\<lfloor>log 2 a\<rfloor> = b - 1"
    by (subst floor_log2_iff[OF assms]) simp
  with True show ?thesis by (simp add: b_def)
next
  case False
  define y where "y = 1 / a"
  have y: "1 < y" using False assms by (simp add: y_def)
  define c where "c = \<lceil>y\<rceil> - 1"
  have c: "0 < c" "real_of_int c < y" "y \<le> real_of_int c + 1"
    using y by (simp_all add: c_def less_ceiling_iff) linarith+
  define b where "b = bitlen c"
  from bitlen_bounds[OF c(1)] have lo: "2 ^ nat (b - 1) \<le> c" and hi: "c < 2 ^ nat b"
    by (simp_all add: b_def)
  have b1: "1 \<le> b" using c(1) by (simp add: b_def bitlen_alt_def)
  have "real_of_int c + 1 \<le> real_of_int (2 ^ nat b)"
    using hi by (metis of_int_1 of_int_add of_int_le_iff zless_imp_add1_zle)
  with c have yhi: "y \<le> 2 ^ nat b" by simp
  have "real_of_int (2 ^ nat (b - 1)) \<le> real_of_int c" using lo by (simp only: of_int_le_iff)
  then have "(2::real) ^ nat (b - 1) \<le> real_of_int c" by simp
  with c(2) have ylo: "2 ^ nat (b - 1) < y" by linarith
  have a: "a = 1 / y" using assms by (simp add: y_def)
  have "2 powi (- b) \<le> a"
    using yhi y b1 by (simp add: a power_int_def field_simps)
  moreover have "a < 2 powi (- b + 1)"
  proof -
    have "a < 1 / 2 ^ nat (b - 1)"
      unfolding a using ylo y by (intro divide_strict_left_mono) simp_all
    also have "\<dots> = 2 powi (- (b - 1))"
      using b1 by (simp add: power_int_def field_simps)
    finally show ?thesis by simp
  qed
  ultimately have "\<lfloor>log 2 a\<rfloor> = - b"
    by (subst floor_log2_iff[OF assms]) simp
  with False show ?thesis by (simp add: b_def c_def y_def)
qed

lemma ulp_exponent_code [code]:
  "ulp_exponent x =
     (let a = \<bar>x\<bar>
      in max ((if a = 0 then 0 else if 1 \<le> a then bitlen \<lfloor>a\<rfloor> - 1
               else - bitlen (\<lceil>1 / a\<rceil> - 1)) - 52) (- 1074))"
proof (cases "x = 0")
  case True
  then show ?thesis by (simp add: ulp_exponent_def log_def)
next
  case False
  then have "0 < \<bar>x\<bar>" by simp
  from floor_log2_code[OF this] False show ?thesis
    by (simp add: ulp_exponent_def Let_def)
qed

lemma to_double_eval:
  assumes "x \<noteq> 0" and "2 powi e \<le> \<bar>x\<bar>" and "\<bar>x\<bar> < 2 powi (e + 1)"
  shows "to_double x =
     (let q = 2 powi max (e - 52) (- 1074);
          y = of_int (round_half_even (x / q)) * q
      in if 2 ^ 1024 \<le> y then PosInf
         else if y \<le> - (2 ^ 1024) then NegInf
         else Finite y)"
proof -
  have "\<lfloor>log 2 \<bar>x\<bar>\<rfloor> = e"
    using assms by (subst floor_log2_iff) simp_all
  then show ?thesis
    using assms(1) by (simp add: to_double_def ulp_exponent_def)
qed

lemma to_double_finiteI:
  assumes "x \<noteq> 0" and "2 powi e \<le> \<bar>x\<bar>" and "\<bar>x\<bar> < 2 powi (e + 1)"
    and "round_half_even (x / 2 powi max (e - 52) (- 1074)) = m"
    and "y = of_int m * 2 powi max (e - 52) (- 1074)"
    and "\<bar>y\<bar> < 2 ^ 1024"
  shows "to_double x = Finite y"
  using assms(4,5,6) by (simp add: to_double_eval[OF assms(1,2,3)] Let_def abs_if split: if_splits)

lemma scaled_valueI:
  assumes "to_double (10 ^ d) = Finite p" and "to_double (v * p) = Finite y"
    and "round_half_even y = k"
  shows "scaled_value (Finite v) d = Inr k"
  using assms by (simp add: scaled_value_def py_float_of_int_def)

lemma bcd_packI:
  assumes "scaled_value number d = Inr k" and "int_to_bcd k (2 * n) = r"
  shows "bcd_pack number d n = r"
  using assms by (simp add: bcd_pack_def mult.commute)

lemma powi_less_cancel:
  assumes "(2::real) powi a < 2 powi b"
  shows "a < b"
proof (rule ccontr)
  assume "\<not> a < b"
  then have "b \<le> a" by simp
  then have "(2::real) powi b \<le> 2 powi a" by (intro power_int_increasing) simp_all
  with assms show False by simp
qed

lemma to_double_exact:
  assumes x: "x = of_int m * 2 powi j" and m: "\<bar>m\<bar> < 2 ^ 53" and j: "- 1074 \<le> j"
    and fin: "\<bar>x\<bar> < 2 ^ 1024"
  shows "to_double x = Finite x"
proof (cases "x = 0")
  case True
  then show ?thesis by (simp add: to_double_def)
next
  case False
  define e where "e = \<lfloor>log 2 \<bar>x\<bar>\<rfloor>"
  define ue where "ue = max (e - 52) (- 1074)"
  from False have pos: "0 < \<bar>x\<bar>" by simp
  have lo: "2 powi e \<le> \<bar>x\<bar>" and hi: "\<bar>x\<bar> < 2 powi (e + 1)"
    unfolding e_def using floor_log2_bounds[OF pos] by simp_all
  have "\<bar>x\<bar> = of_int \<bar>m\<bar> * 2 powi j"
    by (simp add: x abs_mult)
  also have "\<dots> < 2 ^ 53 * 2 powi j"
  proof -
    have "real_of_int \<bar>m\<bar> < 2 ^ 53" using m by (metis of_int_less_numeral_power_cancel_iff)
    then show ?thesis by (intro mult_strict_right_mono) simp_all
  qed
  also have "\<dots> = 2 powi (53 + j)"
    by (simp add: power_int_add)
  finally have "(2::real) powi e < 2 powi (53 + j)"
    using lo by simp
  then have "e < 53 + j" by (rule powi_less_cancel)
  with j have uej: "ue \<le> j" by (simp add: ue_def)
  define k where "k = m * 2 ^ nat (j - ue)"
  have "(2::real) powi j = 2 powi (j - ue) * 2 powi ue"
    by (simp flip: power_int_add)
  also have "(2::real) powi (j - ue) = 2 ^ nat (j - ue)"
    using uej by (simp add: power_int_def)
  finally have split: "(2::real) powi j = 2 ^ nat (j - ue) * 2 powi ue" .
  have xk: "x = of_int k * 2 powi ue"
    by (simp add: x k_def split)
  then have "x / 2 powi ue = of_int k" by simp
  then have r: "round_half_even (x / 2 powi max (e - 52) (- 1074)) = k"
    by (simp add: ue_def[symmetric] rhe_of_int)
  show ?thesis
  proof (rule to_double_finiteI[OF False lo hi r])
    show "x = of_int k * 2 powi max (e - 52) (- 1074)"
      using xk by (simp only: ue_def)
    show "\<bar>x\<bar> < 2 ^ 1024" by (rule fin)
  qed
qed

lemma to_double_rel_error:
  assumes lo: "2 powi (- 1022) \<le> \<bar>x\<bar>" and hi: "\<bar>x\<bar> < 2 ^ 1023"
  shows "\<exists>y. to_double x = Finite y \<and> \<bar>y - x\<bar> \<le> \<bar>x\<bar> / 2 ^ 53"
proof -
  have pos: "0 < \<bar>x\<bar>"
    using lo by (smt (verit) zero_less_power_int)
  then have nz: "x \<noteq> 0" by simp
  define e where "e = \<lfloor>log 2 \<bar>x\<bar>\<rfloor>"
  have elo: "2 powi e \<le> \<bar>x\<bar>" and ehi: "\<bar>x\<bar> < 2 powi (e + 1)"
    unfolding e_def using floor_log2_bounds[OF pos] by simp_all
  from lo ehi have "(2::real) powi (- 1022) < 2 powi (e + 1)" by simp
  then have "- 1022 < e + 1" by (rule powi_less_cancel)
  then have ue: "max (e - 52) (- 1074) = e - 52" by simp
  define q :: real where "q = 2 powi (e - 52)"
  define m where "m = round_half_even (x / q)"
  define y where "y = of_int m * q"
  have q: "0 < q" by (simp add: q_def)
  have "\<bar>of_int m - x / q\<bar> \<le> 1 / 2"
    unfolding m_def by (rule rhe_near)
  then have "\<bar>of_int m - x / q\<bar> * q \<le> 1 / 2 * q"
    using q by (intro mult_right_mono) simp_all
  moreover have "\<bar>of_int m - x / q\<bar> * q = \<bar>y - x\<bar>"
  proof -
    have "(of_int m - x / q) * q = y - x"
      using q by (simp add: y_def field_simps)
    then have "\<bar>y - x\<bar> = \<bar>of_int m - x / q\<bar> * \<bar>q\<bar>"
      by (simp only: abs_mult[symmetric])
    with q show ?thesis by simp
  qed
  moreover have "1 / 2 * q = 2 powi e / 2 ^ 53"
    by (simp add: q_def power_int_diff)
  moreover have "2 powi e / 2 ^ 53 \<le> \<bar>x\<bar> / 2 ^ 53"
    using elo by (intro divide_right_mono) simp_all
  ultimately have err: "\<bar>y - x\<bar> \<le> \<bar>x\<bar> / 2 ^ 53" by simp
  have "\<bar>x\<bar> / 2 ^ 53 \<le> \<bar>x\<bar>" by (simp add: field_simps)
  with err have "\<bar>y\<bar> \<le> 2 * \<bar>x\<bar>" by linarith
  also have "\<dots> < 2 * 2 ^ 1023" using hi by simp
  finally have fin: "\<bar>y\<bar> < 2 ^ 1024" by simp
  have "to_double x = Finite y"
  proof (rule to_double_finiteI[OF nz elo ehi, of m])
    show "round_half_even (x / 2 powi max (e - 52) (- 1074)) = m"
      by (simp only: ue m_def q_def)
    show "y = of_int m * 2 powi max (e - 52) (- 1074)"
      by (simp only: ue y_def q_def)
    show "\<bar>y\<bar> < 2 ^ 1024" by (rule fin)
  qed
  with err show ?thesis by blast
qed

lemma to_double_nonneg:
  assumes "0 \<le> x"
  shows "to_double x = PosInf \<or> (\<exists>y. to_double x = Finite y \<and> 0 \<le> y \<and> y < 2 ^ 1024)"
proof (cases "x = 0")
  case True
  then show ?thesis by (simp add: to_double_def)
next
  case False
  let ?q = "(2::real) powi ulp_exponent x"
  have "0 < ?q" by simp
  with assms have "0 \<le> x / ?q" by simp
  then have "0 \<le> round_half_even (x / ?q)" by (rule rhe_nonneg)
  then have "0 \<le> of_int (round_half_even (x / ?q)) * ?q" by simp
  then show ?thesis
    using False by (auto simp add: to_double_def Let_def not_le)
qed

section \<open>The BCD codec\<close>

lemma digit_cases: "d < 10 \<Longrightarrow> d \<in> {0, 1, 2, 3, 4, 5, 6, 7, 8, 9::nat}"
  by auto

lemma digit_char_props:
  assumes "d < 10"
  shows "is_digit (digit_char d)" and "digit_val (digit_char d) = d"
  using digit_cases[OF assms] by (auto simp add: digit_char_def is_digit_def digit_val_def)

lemma is_digit_props:
  assumes "is_digit c"
  shows "digit_val c < 10" and "digit_char (digit_val c) = c" and "c \<noteq> CHR ''-''" and "c \<noteq> CHR ''+''"
  using assms by (auto simp add: digit_char_def is_digit_def digit_val_def)

lemma digits_val_snoc: "digits_val (s @ [c]) = 10 * digits_val s + digit_val c"
  by (simp add: digits_val_def)

lemma str_nat_props: "list_all is_digit (str_nat n) \<and> digits_val (str_nat n) = n \<and> str_nat n \<noteq> []"
proof (induction n rule: str_nat.induct)
  case (1 n)
  show ?case
  proof (cases "n < 10")
    case True
    then show ?thesis
      by (simp add: str_nat.simps[of n] digit_char_props digits_val_def)
  next
    case False
    with 1 have "list_all is_digit (str_nat (n div 10))" "digits_val (str_nat (n div 10)) = n div 10"
      by simp_all
    with False show ?thesis
      by (simp add: str_nat.simps[of n] digit_char_props digits_val_snoc)
  qed
qed

lemma digits_val_zeros: "digits_val (replicate m CHR ''0'' @ s) = digits_val s"
proof -
  have "foldl (\<lambda>a c. 10 * a + digit_val c) 0 (replicate m CHR ''0'') = 0"
    by (induction m) (simp_all add: digit_val_def)
  then show ?thesis by (simp add: digits_val_def)
qed

lemma is_digit_zero: "is_digit CHR ''0''"
  by (simp add: is_digit_def)

lemma zfill_props:
  "digits_val (zfill w s) = digits_val s"
  "list_all is_digit s \<Longrightarrow> list_all is_digit (zfill w s)"
  "length (zfill w s) = max w (length s)"
  by (simp_all add: zfill_def digits_val_zeros list_all_length nth_append is_digit_zero)

lemma py_int_digits:
  assumes "s \<noteq> []" "list_all is_digit s" "length s \<le> int_max_str_digits"
  shows "py_int s = Inr (int (digits_val s))"
proof -
  from assms obtain c r where s: "s = c # r" by (cases s) auto
  with assms have "is_digit c" by simp
  then have "c \<noteq> CHR ''-''" "c \<noteq> CHR ''+''" by (rule is_digit_props)+
  with assms show ?thesis by (simp add: py_int_def s)
qed

lemma collect_pairs:
  "list_all is_digit s \<Longrightarrow> 2 * m \<le> length s \<Longrightarrow>
   collect (map (\<lambda>i. py_int (take 2 (drop i s))) (map (\<lambda>k. 2 * k) [0 ..< m]))
     = Inr (digit_pairs (take (2 * m) s))"
proof (induction m arbitrary: s)
  case 0
  then show ?case by simp
next
  case (Suc m)
  then obtain a b r where s: "s = a # b # r"
    by (cases s; cases "tl s") auto
  with Suc.prems have r: "list_all is_digit r" "2 * m \<le> length r" and ab: "is_digit a" "is_digit b"
    by simp_all
  have head: "py_int [a, b] = Inr (int (10 * digit_val a + digit_val b))"
    using ab by (simp add: py_int_digits digits_val_def int_max_str_digits_def)
  have "map (\<lambda>i. py_int (take 2 (drop i s))) (map (\<lambda>k. 2 * k) [0 ..< Suc m])
      = py_int [a, b] # map (\<lambda>i. py_int (take 2 (drop i r))) (map (\<lambda>k. 2 * k) [0 ..< m])"
    unfolding map_map by (subst map_upt_Suc) (simp add: s comp_def)
  then show ?case
    using Suc.IH[OF r] by (simp add: head s)
qed

lemma digit_pairs_bytes:
  "list_all is_digit s \<Longrightarrow> py_bytes (digit_pairs s) = Inr (map word_of_int (digit_pairs s))"
proof -
  assume "list_all is_digit s"
  then have "list_all (\<lambda>x. 0 \<le> x \<and> x \<le> 255) (digit_pairs s)"
  proof (induction s rule: digit_pairs.induct)
    case (1 a b r)
    then show ?case using is_digit_props(1)[of a] is_digit_props(1)[of b] by simp
  qed simp_all
  then show ?thesis by (simp add: py_bytes_def)
qed

lemma length_digit_pairs: "length (digit_pairs s) = length s div 2"
  by (induction s rule: digit_pairs.induct) simp_all

lemma int_to_bcd_nonneg:
  assumes "0 \<le> v" and cap: "length (str_nat (nat v)) \<le> int_max_str_digits"
  shows "int_to_bcd v (2 * n) =
     Inr (map word_of_int (digit_pairs (take (2 * n) (format_0d v (2 * n)))))"
proof -
  let ?s = "format_0d v (2 * n)"
  have s: "?s = zfill (2 * n) (str_nat (nat v))"
    using assms by (simp add: format_0d_def)
  have d: "list_all is_digit ?s" and l: "2 * n \<le> length ?s"
    unfolding s by (simp_all add: zfill_props str_nat_props)
  have "list_all is_digit (take (2 * n) ?s)"
    using d by (auto simp add: list_all_iff dest: in_set_takeD)
  moreover have "\<not> int_max_str_digits < length (str_nat (nat \<bar>v\<bar>))"
    using assms by simp
  ultimately show ?thesis
    using collect_pairs[OF d l]
    by (simp add: int_to_bcd_def Let_def range_step2_def digit_pairs_bytes)
qed

lemma format_0d_nat: "format_0d (int x) w = zfill w (str_nat x)"
  by (simp add: format_0d_def)

lemma unpack_digit_pairs:
  "list_all is_digit s \<Longrightarrow> even (length s) \<Longrightarrow>
   concat (map (\<lambda>b. format_0d (uint b) 2) (map word_of_int (digit_pairs s) :: byte list)) = s"
proof (induction s rule: digit_pairs.induct)
  case (1 a b r)
  let ?x = "10 * digit_val a + digit_val b"
  from 1 have ab: "is_digit a" "is_digit b" by simp_all
  have lt: "?x < 100"
    using is_digit_props(1)[OF ab(1)] is_digit_props(1)[OF ab(2)] by simp
  have u: "uint (word_of_int (int ?x) :: byte) = int ?x"
    using lt by (simp add: unsigned_of_nat take_bit_nat_eq_self del: of_nat_add of_nat_mult)
  have z: "zfill 2 (str_nat ?x) = [a, b]"
  proof (cases "digit_val a = 0")
    case True
    then have "a = CHR ''0''" using is_digit_props(2)[OF ab(1)] by (simp add: digit_char_def)
    with True show ?thesis
      using is_digit_props[OF ab(2)]
      by (simp add: zfill_def str_nat.simps[of "digit_val b"])
  next
    case False
    then have "\<not> ?x < 10" "?x div 10 = digit_val a" "?x mod 10 = digit_val b" "?x div 10 < 10"
      using is_digit_props(1)[OF ab(1)] is_digit_props(1)[OF ab(2)] by simp_all
    then show ?thesis
      using is_digit_props(2)[OF ab(1)] is_digit_props(2)[OF ab(2)]
      by (simp add: zfill_def str_nat.simps[of ?x] str_nat.simps[of "digit_val a"])
  qed
  have f: "format_0d (uint (word_of_int (int ?x) :: byte)) 2 = [a, b]"
    unfolding u format_0d_nat by (rule z)
  from 1 have ih: "concat (map (\<lambda>b. format_0d (uint b) 2) (map word_of_int (digit_pairs r) :: byte list)) = r"
    by simp
  show ?case
    by (simp only: digit_pairs.simps list.map concat.simps f ih append.simps)
qed simp_all


lemma length_str_nat: "0 < k \<Longrightarrow> n < 10 ^ k \<Longrightarrow> length (str_nat n) \<le> k"
proof (induction n arbitrary: k rule: str_nat.induct)
  case (1 n)
  show ?case
  proof (cases "n < 10")
    case True
    with "1.prems" show ?thesis by (simp add: str_nat.simps[of n])
  next
    case False
    with "1.prems" obtain k' where k: "k = Suc k'" "0 < k'"
      by (cases k; cases "k - 1") auto
    with "1.prems" have "n div 10 < 10 ^ k'"
      by (simp add: less_mult_imp_div_less mult.commute)
    from "1.IH"[OF False k(2) this] False show ?thesis
      by (simp add: str_nat.simps[of n] k)
  qed
qed

lemma to_double_pow10:
  assumes "d \<le> 22"
  shows "to_double (10 ^ d) = Finite (10 ^ d)"
proof (rule to_double_exact[where m = "5 ^ d" and j = "int d"])
  show "(10::real) ^ d = of_int (5 ^ d) * 2 powi int d"
    by (simp flip: power_mult_distrib)
  have "(5::int) ^ d \<le> 5 ^ 22"
    using assms by (intro power_increasing) simp_all
  then show "\<bar>(5::int) ^ d\<bar> < 2 ^ 53" by simp
  show "- 1074 \<le> int d" by simp
  have "(10::real) ^ d \<le> 10 ^ 22"
    using assms by (intro power_increasing) simp_all
  then show "\<bar>(10::real) ^ d\<bar> < 2 ^ 1024" by simp
qed

lemma rel_error_bounds:
  fixes z K :: real
  assumes "\<bar>z - K\<bar> \<le> K / 2 ^ 53"
  shows "K - K / 9007199254740992 \<le> z" and "z \<le> K + K / 9007199254740992"
proof -
  from assms have "z - K \<le> K / 2 ^ 53" "- (z - K) \<le> K / 2 ^ 53"
    unfolding abs_le_iff by simp_all
  then show "K - K / 9007199254740992 \<le> z" "z \<le> K + K / 9007199254740992"
    by simp_all
qed

lemma scaled_value_roundtrip:
  assumes k: "0 \<le> k" "k < 2 ^ 51" and d: "d \<le> 22"
  shows "\<exists>v. to_double (of_int k / 10 ^ d) = Finite v \<and> scaled_value (Finite v) d = Inr k"
proof (cases "k = 0")
  case True
  have z: "to_double 0 = Finite 0" by (simp add: to_double_def)
  have "scaled_value (Finite 0) d = Inr 0"
    by (rule scaled_valueI[OF to_double_pow10[OF d], of _ 0]) (simp_all add: z rhe_of_int[of 0, simplified])
  with True z show ?thesis by simp
next
  case False
  with k have k1: "1 \<le> k" by simp
  define D :: real where "D = 10 ^ d"
  define x :: real where "x = of_int k / D"
  have "(10::real) ^ d \<le> 10 ^ 22"
    using d by (intro power_increasing) simp_all
  then have D: "1 \<le> D" "D \<le> 10 ^ 22"
    unfolding D_def by simp_all
  have kr: "1 \<le> real_of_int k" "real_of_int k < 2 ^ 51"
    using k1 k(2) by simp_all
  have xlo: "1 / 10 ^ 22 \<le> x"
  proof -
    have "1 / 10 ^ 22 \<le> 1 / D" using D by (simp add: field_simps)
    also have "\<dots> \<le> x" unfolding x_def using kr D by (intro divide_right_mono) simp_all
    finally show ?thesis .
  qed
  have xhi: "x \<le> of_int k"
    unfolding x_def using D kr by (simp add: field_simps mult_le_cancel_left1)
  have "2 powi (- 1022) \<le> (1::real) / 10 ^ 22"
    by (simp add: power_int_minus field_simps)
  with xlo have "2 powi (- 1022) \<le> \<bar>x\<bar>" by simp
  moreover have "\<bar>x\<bar> < 2 ^ 1023"
    using xlo xhi kr by simp
  ultimately obtain v where v: "to_double x = Finite v" and verr: "\<bar>v - x\<bar> \<le> \<bar>x\<bar> / 2 ^ 53"
    using to_double_rel_error by blast
  define z where "z = v * D"
  have xD: "x * D = of_int k"
    unfolding x_def using D by simp
  have "\<bar>v - x\<bar> * D \<le> \<bar>x\<bar> / 2 ^ 53 * D"
    using verr D by (intro mult_right_mono) simp_all
  moreover have "\<bar>v - x\<bar> * D = \<bar>z - of_int k\<bar>"
  proof -
    have "(v - x) * D = z - of_int k" by (simp add: z_def xD left_diff_distrib)
    then have "\<bar>z - of_int k\<bar> = \<bar>v - x\<bar> * \<bar>D\<bar>" by (simp only: abs_mult[symmetric])
    with D show ?thesis by simp
  qed
  moreover have "\<bar>x\<bar> / 2 ^ 53 * D = of_int k / 2 ^ 53"
    using xlo xD by (simp add: abs_of_pos)
  ultimately have zerr: "\<bar>z - of_int k\<bar> \<le> of_int k / 2 ^ 53" by simp
  then have zb: "of_int k - of_int k / 9007199254740992 \<le> z"
    "z \<le> of_int k + of_int k / 9007199254740992"
    by (rule rel_error_bounds)+
  have kn: "1 \<le> real_of_int k" "real_of_int k \<le> 2251799813685247"
    using k1 k(2) by simp_all
  have "2 powi (- 1022) \<le> (1::real) / 2" by (simp add: power_int_minus field_simps)
  moreover have "1 / 2 \<le> z" using zb kn by linarith
  ultimately have "2 powi (- 1022) \<le> \<bar>z\<bar>" by simp
  moreover have "\<bar>z\<bar> < 2 ^ 1023"
  proof -
    have "\<bar>z\<bar> \<le> 4503599627370496" using zb kn by linarith
    also have "\<dots> < (2::real) ^ 1023" by simp
    finally show ?thesis .
  qed
  ultimately obtain p where p: "to_double z = Finite p" and perr: "\<bar>p - z\<bar> \<le> \<bar>z\<bar> / 2 ^ 53"
    using to_double_rel_error by blast
  have "0 \<le> z" using zb kn by linarith
  with perr have "\<bar>p - z\<bar> \<le> z / 2 ^ 53" by simp
  then have "z - z / 9007199254740992 \<le> p" "p \<le> z + z / 9007199254740992"
    by (rule rel_error_bounds)+
  then have "\<bar>p - of_int k\<bar> < 1 / 2"
    using zb kn by (simp only: abs_less_iff) linarith
  then have "round_half_even p = k" by (rule rhe_unique)
  with p have "scaled_value (Finite v) d = Inr k"
    by (intro scaled_valueI[OF to_double_pow10[OF d]]) (simp_all add: z_def D_def)
  with v show ?thesis by (auto simp add: x_def D_def)
qed

lemma py_truediv_pow10:
  assumes "to_double (of_int k / 10 ^ d) = Finite v"
  shows "py_truediv k (10 ^ d) = Inr (Finite v)"
  using assms by (simp add: py_truediv_def)

text \<open>
  Claim C3, as amended. Let \<open>k\<close> be a scaled integer with \<open>0 \<le> k < 2^51\<close> whose decimal
  rendering has at most \<open>n * 2\<close> digits, let \<open>d \<le> 22\<close> and \<open>n \<le> 2150\<close>, and let \<open>v\<close> be
  the float nearest to \<open>k / 10^d\<close>. Then packing \<open>v\<close> succeeds with \<open>n\<close> bytes and
  unpacking them gives \<open>v\<close> back. (Beyond \<open>2^51\<close> the float product \<open>v * 10^d\<close> can
  round to another integer; beyond 22 the power of ten is not a float; beyond 2150
  bytes the digit string exceeds the conversion cap.)
\<close>

theorem bcd_roundtrip:
  assumes "0 \<le> k" and "k < 2 ^ 51" and "d \<le> 22"
    and "length (str_nat (nat k)) \<le> 2 * n" and "2 * n \<le> int_max_str_digits"
  shows "\<exists>v bs. to_double (of_int k / 10 ^ d) = Finite v
           \<and> bcd_pack (Finite v) d n = Inr bs \<and> length bs = n
           \<and> bcd_unpack bs d = Inr (Finite v)"
proof -
  from scaled_value_roundtrip[OF assms(1,2,3)] obtain v where
    v: "to_double (of_int k / 10 ^ d) = Finite v" and sc: "scaled_value (Finite v) d = Inr k"
    by blast
  define s where "s = zfill (2 * n) (str_nat (nat k))"
  have fmt: "format_0d k (2 * n) = s"
    using assms(1) by (simp add: format_0d_def s_def)
  have len: "length s = 2 * n"
    using assms(4) by (simp add: s_def zfill_props)
  have dig: "list_all is_digit s" and val: "digits_val s = nat k"
    using str_nat_props[of "nat k"] by (simp_all add: s_def zfill_props)
  have ne: "s \<noteq> []"
    using str_nat_props[of "nat k"] by (simp add: s_def zfill_def)
  have cap: "length (str_nat (nat k)) \<le> int_max_str_digits"
    using assms(4,5) by simp
  let ?bs = "map word_of_int (digit_pairs s) :: byte list"
  have "int_to_bcd k (2 * n) = Inr ?bs"
    using len by (simp add: int_to_bcd_nonneg[OF assms(1) cap] fmt)
  with sc have pack: "bcd_pack (Finite v) d n = Inr ?bs"
    by (rule bcd_packI)
  have "concat (map (\<lambda>b. format_0d (uint b) 2) ?bs) = s"
    using dig len by (intro unpack_digit_pairs) simp_all
  moreover have "py_int s = Inr (int (digits_val s))"
    using ne dig len assms(5) by (intro py_int_digits) simp_all
  ultimately have "bcd_unpack ?bs d = py_truediv k (10 ^ d)"
    using assms(1) by (simp add: bcd_unpack_def Let_def val del: map_map)
  then have "bcd_unpack ?bs d = Inr (Finite v)"
    by (simp only: py_truediv_pow10[OF v])
  with v pack len show ?thesis
    by (auto simp add: length_digit_pairs)
qed

lemma length_format_0d: "0 \<le> k \<Longrightarrow> w \<le> length (format_0d k w)"
  by (simp add: format_0d_def zfill_props)

lemma rhe_upper: "x < of_int b \<Longrightarrow> round_half_even x \<le> b"
proof -
  assume "x < of_int b"
  then have "\<lfloor>x\<rfloor> < b" by (simp add: floor_less_iff)
  then show ?thesis by (auto simp add: round_half_even_def Let_def)
qed

lemma scaled_value_nonneg:
  assumes "0 \<le> v"
  shows "scaled_value (Finite v) d = Inl OverflowError
       \<or> (\<exists>k. 0 \<le> k \<and> k \<le> 2 ^ 1024 \<and> scaled_value (Finite v) d = Inr k)"
proof -
  have "(0::real) \<le> 10 ^ d" by simp
  from to_double_nonneg[OF this] show ?thesis
  proof
    assume "to_double (10 ^ d) = PosInf"
    then show ?thesis by (simp add: scaled_value_def py_float_of_int_def)
  next
    assume "\<exists>p. to_double (10 ^ d) = Finite p \<and> 0 \<le> p \<and> p < 2 ^ 1024"
    then obtain p where p: "to_double (10 ^ d) = Finite p" "0 \<le> p" by blast
    with assms have "0 \<le> v * p" by simp
    from to_double_nonneg[OF this] show ?thesis
    proof
      assume "to_double (v * p) = PosInf"
      with p show ?thesis by (simp add: scaled_value_def py_float_of_int_def)
    next
      assume "\<exists>y. to_double (v * p) = Finite y \<and> 0 \<le> y \<and> y < 2 ^ 1024"
      then obtain y where y: "to_double (v * p) = Finite y" "0 \<le> y" "y < 2 ^ 1024" by blast
      have "y < of_int (2 ^ 1024)" using y(3) by simp
      then have "round_half_even y \<le> 2 ^ 1024" by (rule rhe_upper)
      moreover have "0 \<le> round_half_even y" using y(2) by (rule rhe_nonneg)
      moreover have "scaled_value (Finite v) d = Inr (round_half_even y)"
        using p(1) y(1) by (intro scaled_valueI) simp_all
      ultimately show ?thesis by blast
    qed
  qed
qed

lemma digits_of_scaled:
  assumes "0 \<le> k" and "k \<le> 2 ^ 1024"
  shows "length (str_nat (nat k)) \<le> int_max_str_digits"
proof -
  have "nat k \<le> 2 ^ 1024" using assms by (simp add: nat_le_iff)
  also have "(2::nat) ^ 1024 < 10 ^ 309" by simp
  finally have "length (str_nat (nat k)) \<le> 309"
    by (intro length_str_nat) simp_all
  then show ?thesis by (simp add: int_max_str_digits_def)
qed

text \<open>
  Claim C5, as amended. \<open>bcd_pack\<close> has no check of the field width. On a finite
  non-negative float it fails only when the float product \<open>number * 10^decimals\<close>
  overflows, with \<open>OverflowError\<close> and whatever the \<open>length\<close>; otherwise it returns
  exactly \<open>length\<close> bytes for every \<open>length\<close>, and these depend only on the first
  \<open>length * 2\<close> characters of the zero-padded rendering of the scaled value: digits
  beyond them are dropped without notice.
\<close>

theorem bcd_pack_never_rejects:
  assumes "0 \<le> v"
  shows "(scaled_value (Finite v) d = Inl OverflowError
           \<and> (\<forall>n. bcd_pack (Finite v) d n = Inl OverflowError))
       \<or> (\<exists>k. 0 \<le> k \<and> scaled_value (Finite v) d = Inr k
             \<and> (\<forall>n. \<exists>bs. bcd_pack (Finite v) d n = Inr bs \<and> length bs = n
                   \<and> (\<forall>w k'. 0 \<le> w \<and> scaled_value (Finite w) d = Inr k'
                          \<and> take (2 * n) (format_0d k' (2 * n)) = take (2 * n) (format_0d k (2 * n))
                        \<longrightarrow> bcd_pack (Finite w) d n = Inr bs)))"
proof -
  have pack: "bcd_pack (Finite w) d n
      = Inr (map word_of_int (digit_pairs (take (2 * n) (format_0d k (2 * n)))))"
    if "0 \<le> w" "scaled_value (Finite w) d = Inr k" for w k n
  proof -
    from scaled_value_nonneg[OF that(1), of d] that(2) have k: "0 \<le> k" "k \<le> 2 ^ 1024"
      by auto
    show ?thesis
      by (rule bcd_packI[OF that(2)]) (rule int_to_bcd_nonneg[OF k(1) digits_of_scaled[OF k]])
  qed
  from scaled_value_nonneg[OF assms, of d] show ?thesis
  proof
    assume "scaled_value (Finite v) d = Inl OverflowError"
    then show ?thesis by (simp add: bcd_pack_def)
  next
    assume "\<exists>k. 0 \<le> k \<and> k \<le> 2 ^ 1024 \<and> scaled_value (Finite v) d = Inr k"
    then obtain k where k: "0 \<le> k" "scaled_value (Finite v) d = Inr k" by blast
    have "2 * n \<le> length (format_0d k (2 * n))" for n
      using k(1) by (rule length_format_0d)
    then have "length (map word_of_int (digit_pairs (take (2 * n) (format_0d k (2 * n)))) :: byte list) = n" for n
      by (simp add: length_digit_pairs min_absorb2)
    with k pack[OF assms k(2)] pack show ?thesis
      by (intro disjI2 exI[of _ k]) (simp del: map_map)
  qed
qed

lemma to_double_infI:
  assumes "x \<noteq> 0" and "2 powi e \<le> \<bar>x\<bar>" and "\<bar>x\<bar> < 2 powi (e + 1)"
    and "round_half_even (x / 2 powi max (e - 52) (- 1074)) = m"
    and "2 ^ 1024 \<le> of_int m * (2::real) powi max (e - 52) (- 1074)"
  shows "to_double x = PosInf"
  using assms(4,5) by (simp add: to_double_eval[OF assms(1,2,3)] Let_def)

lemma bcd_unpackI:
  assumes "concat (map (\<lambda>b. format_0d (uint b) 2) bcd) = s" and "py_int s = Inr k"
    and "py_truediv k (10 ^ d) = r"
  shows "bcd_unpack bcd d = r"
  using assms by (simp add: bcd_unpack_def)

lemmas digits_eval =
  digit_char_def range_step2_def upt_rec py_int_def is_digit_def
  digits_val_def digit_val_def py_bytes_def int_max_str_digits_def

lemma to_double_100: "to_double (10 ^ 2) = Finite 100"
  by (rule to_double_finiteI[where e = 6 and m = "100 * 2 ^ 46"])
    (simp_all add: round_half_even_def)

subsection \<open>Packing 0.55\<close>

lemma to_double_055: "to_double 0.55 = Finite (4953959590107546 / 2 ^ 53)"
  by (rule to_double_finiteI[where e = "- 1" and m = 4953959590107546])
    (simp_all add: round_half_even_def)

lemma product_055:
  "to_double (4953959590107546 / 2 ^ 53 * 100) = Finite (7740561859543041 / 2 ^ 47)"
  by (rule to_double_finiteI[where e = 5 and m = 7740561859543041])
    (simp_all add: round_half_even_def)

lemma scaled_055: "scaled_value (Finite (4953959590107546 / 2 ^ 53)) 2 = Inr 55"
  by (rule scaled_valueI[OF to_double_100 product_055]) (simp add: round_half_even_def)

lemma str_nat_55: "str_nat 55 = ''55''"
  by (simp add: str_nat.simps digit_char_def)

lemma int_to_bcd_55: "int_to_bcd 55 (2 * 1) = Inr [55]"
  by (simp add: int_to_bcd_def format_0d_def zfill_def str_nat_55 digits_eval)

text \<open>
  Claim C4 on the code: \<open>bcd_pack(0.55, decimals=2, length=1)\<close>. The float product is
  \<open>55.00000000000001\<close>, which rounds to 55; the digit pair \<open>55\<close> is packed as the
  byte of value 55, that is \<open>0x37\<close> with nibbles 3 and 7, and not as \<open>0x55 = 85\<close>:
  \<open>_int_to_bcd\<close> parses each pair in base 10.
\<close>

theorem bcd_pack_digit_pair_55:
  "bcd_pack (to_double 0.55) 2 1 = Inr [55] \<and> (55 :: byte) \<noteq> 85
   \<and> drop_bit 4 (55 :: byte) = 3 \<and> (55 :: byte) AND 15 = 7"
proof -
  have "bcd_pack (to_double 0.55) 2 1 = Inr [55]"
    unfolding to_double_055 by (rule bcd_packI[OF scaled_055 int_to_bcd_55])
  then show ?thesis by simp
qed

subsection \<open>Packing 10000.00 into three bytes\<close>

lemma to_double_10000: "to_double 10000 = Finite 10000"
  by (rule to_double_finiteI[where e = 13 and m = "10000 * 2 ^ 39"])
    (simp_all add: round_half_even_def)

lemma product_10000: "to_double (10000 * 100) = Finite 1000000"
  by (rule to_double_finiteI[where e = 19 and m = "1000000 * 2 ^ 33"])
    (simp_all add: round_half_even_def)

lemma scaled_10000: "scaled_value (Finite 10000) 2 = Inr 1000000"
  by (rule scaled_valueI[OF to_double_100 product_10000]) (simp add: round_half_even_def)

lemma str_nat_1000000: "str_nat 1000000 = ''1000000''"
  by (simp add: str_nat.simps digit_char_def)

lemma int_to_bcd_1000000: "int_to_bcd 1000000 (2 * 3) = Inr [10, 0, 0]"
  by (simp add: int_to_bcd_def format_0d_def zfill_def str_nat_1000000 digits_eval)

text \<open>
  Claim C5 as stated fails: 10000.00 with 2 decimals scales to 1000000, which needs seven
  digits, yet packing it into a 3-byte field returns the bytes for \<open>10 00 00\<close>.
\<close>

theorem bcd_pack_overflow_counterexample:
  "to_double 10000 = Finite 10000
   \<and> scaled_value (Finite 10000) 2 = Inr 1000000
   \<and> 2 * 3 < length (str_nat 1000000)
   \<and> bcd_pack (Finite 10000) 2 3 = Inr [10, 0, 0]"
  using to_double_10000 scaled_10000 bcd_packI[OF scaled_10000 int_to_bcd_1000000]
  by (simp add: str_nat_1000000)

subsection \<open>A product that overflows\<close>

lemma product_overflow: "to_double (2 ^ 1023 * 100) = PosInf"
  by (rule to_double_infI[where e = 1029 and m = "100 * 2 ^ 46"])
    (simp_all add: round_half_even_def)

lemma scaled_overflow: "scaled_value (Finite (2 ^ 1023)) 2 = Inl OverflowError"
  using to_double_100 product_overflow by (simp add: scaled_value_def py_float_of_int_def)

theorem bcd_pack_never_rejects_witness:
  "(\<forall>n. \<exists>bs. bcd_pack (Finite 10000) 2 n = Inr bs \<and> length bs = n)
   \<and> (\<forall>n. bcd_pack (Finite (2 ^ 1023)) 2 n = Inl OverflowError)"
proof -
  have "(0::real) \<le> 10000" by simp
  from bcd_pack_never_rejects[OF this, of 2]
  have a: "\<forall>n. \<exists>bs. bcd_pack (Finite 10000) 2 n = Inr bs \<and> length bs = n"
    by (simp add: scaled_10000) blast
  have "(0::real) \<le> 2 ^ 1023" by simp
  from bcd_pack_never_rejects[OF this, of 2]
  have "\<forall>n. bcd_pack (Finite (2 ^ 1023)) 2 n = Inl OverflowError"
    by (simp only: scaled_overflow) simp
  with a show ?thesis by blast
qed

subsection \<open>Round trips\<close>

lemma str_nat_65536: "str_nat 65536 = ''65536''"
  by (simp add: str_nat.simps digit_char_def)

theorem bcd_roundtrip_witness:
  "\<exists>v bs. to_double (of_int 65536 / 10 ^ 2) = Finite v
     \<and> bcd_pack (Finite v) 2 3 = Inr bs \<and> length bs = 3
     \<and> bcd_unpack bs 2 = Inr (Finite v)"
  by (rule bcd_roundtrip) (simp_all add: str_nat_65536 int_max_str_digits_def)

lemma to_double_big: "to_double (360287970189641 / 4) = Finite (360287970189641 / 4)"
  by (rule to_double_exact[where m = 360287970189641 and j = "- 2"]) simp_all

lemma product_big: "to_double (360287970189641 / 4 * 100) = Finite 9007199254741024"
  by (rule to_double_finiteI[where e = 53 and m = 4503599627370512])
    (simp_all add: round_half_even_def)

lemma scaled_big: "scaled_value (Finite (360287970189641 / 4)) 2 = Inr 9007199254741024"
  by (rule scaled_valueI[OF to_double_100 product_big]) (simp add: round_half_even_def)

lemma str_nat_big: "str_nat 9007199254741024 = ''9007199254741024''"
  by (simp add: str_nat.simps digit_char_def)

lemma str_nat_big_scaled: "str_nat 9007199254741025 = ''9007199254741025''"
  by (simp add: str_nat.simps digit_char_def)

lemma int_to_bcd_big:
  "int_to_bcd 9007199254741024 (2 * 8) = Inr [90, 7, 19, 92, 54, 74, 10, 24]"
  by (simp add: int_to_bcd_def format_0d_def zfill_def str_nat_big digits_eval)

lemma str_nat_two_digits:
  "str_nat 90 = ''90''" "str_nat 7 = ''7''" "str_nat 19 = ''19''" "str_nat 92 = ''92''"
  "str_nat 54 = ''54''" "str_nat 74 = ''74''" "str_nat 10 = ''10''" "str_nat 24 = ''24''"
  by (simp_all add: str_nat.simps digit_char_def)

lemma quotient_big:
  "to_double (of_int 9007199254741024 / 10 ^ 2) = Finite (5764607523034255 / 64)"
  by (rule to_double_finiteI[where e = 46 and m = 5764607523034255])
    (simp_all add: round_half_even_def)

lemma unpack_big:
  "bcd_unpack [90, 7, 19, 92, 54, 74, 10, 24] 2 = Inr (Finite (5764607523034255 / 64))"
proof (rule bcd_unpackI[where s = "''9007199254741024''" and k = 9007199254741024])
  show "concat (map (\<lambda>b. format_0d (uint b) 2) [90, 7, 19, 92, 54, 74, 10, 24 :: byte])
      = ''9007199254741024''"
    by (simp add: format_0d_def zfill_def str_nat_two_digits)
  show "py_int ''9007199254741024'' = Inr 9007199254741024"
    by (simp add: digits_eval)
  show "py_truediv 9007199254741024 (10 ^ 2) = Inr (Finite (5764607523034255 / 64))"
    by (rule py_truediv_pow10[OF quotient_big])
qed

text \<open>
  Claim C3 as stated fails: \<open>v = 90071992547410.25 = 360287970189641 / 4\<close> is a float,
  has two decimals, and its scaled integer 9007199254741025 has 16 digits, which fit
  8 bytes. The float product is 9007199254741024, and the bytes unpack to
  \<open>90071992547410.234375\<close>.
\<close>

theorem bcd_roundtrip_counterexample:
  "to_double (360287970189641 / 4) = Finite (360287970189641 / 4)
   \<and> (360287970189641 / 4 :: real) * 10 ^ 2 = 9007199254741025
   \<and> length (str_nat 9007199254741025) \<le> 2 * 8
   \<and> bcd_pack (Finite (360287970189641 / 4)) 2 8 = Inr [90, 7, 19, 92, 54, 74, 10, 24]
   \<and> bcd_unpack [90, 7, 19, 92, 54, 74, 10, 24] 2 = Inr (Finite (5764607523034255 / 64))
   \<and> (5764607523034255 / 64 :: real) \<noteq> 360287970189641 / 4"
  using to_double_big bcd_packI[OF scaled_big int_to_bcd_big] unpack_big
  by (simp add: str_nat_big_scaled)

subsection \<open>Unpacking the byte 0x1A\<close>

lemma to_double_026: "to_double 0.26 = Finite (4683743612465316 / 2 ^ 54)"
  by (rule to_double_finiteI[where e = "- 2" and m = 4683743612465316])
    (simp_all add: round_half_even_def)

lemma quotient_026: "to_double (of_int 26 / 10 ^ 2) = Finite (4683743612465316 / 2 ^ 54)"
  by (rule to_double_finiteI[where e = "- 2" and m = 4683743612465316])
    (simp_all add: round_half_even_def)

lemma str_nat_26: "str_nat 26 = ''26''"
  by (simp add: str_nat.simps digit_char_def)

text \<open>
  Claim C6 on the code: \<open>bcd_unpack(bytes([0x1A]), decimals=2)\<close>. The byte \<open>0x1A = 26\<close>, whose
  low nibble is 10, is rendered in base 10 as the digits \<open>26\<close> and accepted; the
  result is the float \<open>0.26\<close>.
\<close>

theorem bcd_unpack_accepts_nibble_10:
  "bcd_unpack [26] 2 = Inr (to_double 0.26) \<and> (26 :: byte) AND 15 = 10
   \<and> to_double 0.26 = Finite (4683743612465316 / 2 ^ 54)"
proof -
  have "bcd_unpack [26] 2 = Inr (Finite (4683743612465316 / 2 ^ 54))"
  proof (rule bcd_unpackI[where s = "''26''" and k = 26])
    show "concat (map (\<lambda>b. format_0d (uint b) 2) [26 :: byte]) = ''26''"
      by (simp add: format_0d_def zfill_def str_nat_26)
    show "py_int ''26'' = Inr 26"
      by (simp add: digits_eval)
    show "py_truediv 26 (10 ^ 2) = Inr (Finite (4683743612465316 / 2 ^ 54))"
      by (rule py_truediv_pow10[OF quotient_026])
  qed
  then show ?thesis
    unfolding to_double_026 by simp
qed

section \<open>The record loop and the inbound block\<close>

subsection \<open>One step of the loop\<close>

lemma record_loop_end: "length core \<le> i \<Longrightarrow> record_loop dec core i d = Inr d"
  by (simp add: record_loop.simps[of dec core i d])

lemma record_loop_header: "i + 1 = length core \<Longrightarrow> record_loop dec core i d = Inl IndexError"
  by (simp add: record_loop.simps[of dec core i d])

lemma record_loop_step:
  "i + 1 < length core \<Longrightarrow>
   record_loop dec core i d =
     (case dec d (core ! i) (take (unat (core ! (i + 1))) (drop (i + 2) core)) of
        Inl e \<Rightarrow> Inl e
      | Inr d' \<Rightarrow> record_loop dec core (i + 2 + unat (core ! (i + 1))) d')"
  by (simp add: record_loop.simps[of dec core i d] Let_def cong: sum.case_cong)

lemma record_loop_shift:
  "record_loop dec (pre @ core) (length pre + i) d = record_loop dec core i d"
proof (induction dec core i d rule: record_loop.induct)
  case (1 dec core i d)
  show ?case
  proof (cases "i + 1 < length core")
    case True
    let ?ln = "unat (core ! (i + 1))"
    let ?r = "dec d (core ! i) (take ?ln (drop (i + 2) core))"
    have ih: "record_loop dec (pre @ core) (length pre + (i + 2 + ?ln)) d'
              = record_loop dec core (i + 2 + ?ln) d'" if "?r = Inr d'" for d'
      using 1[OF _ _ refl refl refl that] True by simp
    have "record_loop dec (pre @ core) (length pre + i) d =
          (case ?r of Inl e \<Rightarrow> Inl e
           | Inr d' \<Rightarrow> record_loop dec (pre @ core) (length pre + (i + 2 + ?ln)) d')"
      using True
      by (subst record_loop_step) (simp_all add: nth_append add.assoc cong: sum.case_cong)
    also have "\<dots> = (case ?r of Inl e \<Rightarrow> Inl e | Inr d' \<Rightarrow> record_loop dec core (i + 2 + ?ln) d')"
      using ih by (simp split: sum.splits)
    also have "\<dots> = record_loop dec core i d"
      using True by (simp add: record_loop_step)
    finally show ?thesis .
  next
    case False
    then consider "i + 1 = length core" | "length core \<le> i" by linarith
    then show ?thesis
      by cases (simp_all add: record_loop_header record_loop_end)
  qed
qed

lemma record_loop_tx:
  assumes "length p \<le> 255"
  shows "record_loop dec (tx_bytes (c, p) @ rest) 0 d =
     (case dec d c p of Inl e \<Rightarrow> Inl e | Inr d' \<Rightarrow> record_loop dec rest 0 d')"
proof -
  have u: "unat (of_nat (length p) :: byte) = length p"
    using assms by (simp add: unat_of_nat)
  have "record_loop dec (tx_bytes (c, p) @ rest) (length (tx_bytes (c, p)) + 0) d'
        = record_loop dec rest 0 d'" for d'
    by (rule record_loop_shift)
  then have s: "record_loop dec (tx_bytes (c, p) @ rest) (2 + length p) d' = record_loop dec rest 0 d'" for d'
    by (simp add: tx_bytes_def)
  have "record_loop dec (tx_bytes (c, p) @ rest) 0 d =
     (case dec d c p of Inl e \<Rightarrow> Inl e
      | Inr d' \<Rightarrow> record_loop dec (tx_bytes (c, p) @ rest) (2 + length p) d')"
    by (subst record_loop_step) (simp_all add: tx_bytes_def u cong: sum.case_cong)
  then show ?thesis
    by (simp only: s)
qed

subsection \<open>What a record does to the dict\<close>

lemma sio_decode_dc_add:
  "sio_decode_dc d t c =
     (case sio_decode_dc Map.empty t c of Inl e \<Rightarrow> Inl e | Inr u \<Rightarrow> Inr (d ++ u))"
  by (simp add: sio_decode_dc_def split: list.splits)

subsection \<open>Records that run out of bytes\<close>

lemma parse_loop_bounds_aux:
  assumes "i + 1 < length core" and "length core < i + 2 + unat (core ! (i + 1))"
  shows "record_loop dec core i d = dec d (core ! i) (drop (i + 2) core)"
proof -
  have "take (unat (core ! (i + 1))) (drop (i + 2) core) = drop (i + 2) core"
    using assms by simp
  moreover have "record_loop dec core (i + 2 + unat (core ! (i + 1))) d' = Inr d'" for d'
    using assms by (intro record_loop_end) simp
  ultimately show ?thesis
    by (simp only: record_loop_step[OF assms(1)]) (simp split: sum.splits)
qed

text \<open>
  Claim C7, as amended. The loop of \<open>driver.py\<close> iterates over the records until the
  bytes are exhausted: at the end of the bytes it returns the dict; a record that lies
  within the bytes is decoded from exactly its declared payload and the loop goes on
  behind it; a record with a truncated header (one byte left) raises \<open>IndexError\<close>;
  a record whose declared length runs past the available bytes is not rejected: it is
  decoded from the bytes that remain, and the loop ends after it.
\<close>

theorem parse_loop_bounds:
  "(length core \<le> i \<longrightarrow> parse_loop core i d = Inr d)
   \<and> (i + 1 = length core \<longrightarrow> parse_loop core i d = Inl IndexError)
   \<and> (i + 1 < length core \<and> i + 2 + unat (core ! (i + 1)) \<le> length core \<longrightarrow>
        parse_loop core i d =
          (case decode_dc d (core ! i) (take (unat (core ! (i + 1))) (drop (i + 2) core)) of
             Inl e \<Rightarrow> Inl e
           | Inr d' \<Rightarrow> parse_loop core (i + 2 + unat (core ! (i + 1))) d'))
   \<and> (i + 1 < length core \<and> length core < i + 2 + unat (core ! (i + 1)) \<longrightarrow>
        parse_loop core i d = decode_dc d (core ! i) (drop (i + 2) core))"
  unfolding parse_loop_def
  using record_loop_end[of core i decode_dc d] record_loop_header[of i core decode_dc d]
    record_loop_step[of i core decode_dc d] parse_loop_bounds_aux[of i core decode_dc d]
  by blast

lemma crc_frame_overrun: "calc_crc [81, 144, 1, 5, 2] = 37243"
  by code_simp

lemma status_text_2: "status_text 2 = ''AUTHORIZED''"
  by (simp add: status_text_def status_names_def)

lemma status_text_4: "status_text 4 = ''FILLING''"
  by (simp add: status_text_def status_names_def)

theorem parse_loop_bounds_witness:
  "parse_loop [] 0 Map.empty = Inr Map.empty
   \<and> parse_loop [1] 0 Map.empty = Inl IndexError
   \<and> parse_loop [1, 5, 2] 0 Map.empty = Inr [''pump_status'' \<mapsto> PStr ''AUTHORIZED'']
   \<and> parse_loop [1, 1, 2, 1, 1, 4] 0 Map.empty = Inr [''pump_status'' \<mapsto> PStr ''FILLING'']"
proof -
  have step: "parse_loop [1, 1, 2, 1, 1, 4] 0 Map.empty
      = parse_loop [1, 1, 2, 1, 1, 4] (0 + 2 + 1) [''pump_status'' \<mapsto> PStr ''AUTHORIZED'']"
    using parse_loop_bounds[of "[1, 1, 2, 1, 1, 4]" 0 Map.empty]
    by (simp add: decode_dc_def status_text_2)
  have "parse_loop [1, 1, 2, 1, 1, 4] (0 + 2 + 1) [''pump_status'' \<mapsto> PStr ''AUTHORIZED'']
      = Inr [''pump_status'' \<mapsto> PStr ''FILLING'']"
    by (simp add: parse_loop_def record_loop.simps decode_dc_def status_text_4)
  with step show ?thesis
    using parse_loop_bounds[of "[]" 0 Map.empty] parse_loop_bounds[of "[1]" 0 Map.empty]
      parse_loop_bounds[of "[1, 5, 2]" 0 Map.empty]
    by (simp add: decode_dc_def status_text_2)
qed

text \<open>
  Claim C7 as stated fails: in this reply the status record declares five payload
  bytes and the whole block has three left, checksum included; the record is decoded.
\<close>

theorem truncated_record_accepted:
  "parse_response [81, 144, 1, 5, 2, 123, 145, 3, 250]
     = Inr [''pump_status'' \<mapsto> PStr ''AUTHORIZED'']"
  by (simp add: parse_response_def crc_frame_overrun parse_loop_def record_loop.simps
      decode_dc_def status_text_2)

subsection \<open>Checksum mismatch\<close>

lemma map_add_upd_fresh: "k \<notin> dom u \<Longrightarrow> (d(k \<mapsto> v)) ++ u = (d ++ u)(k \<mapsto> v)"
  by (rule ext) (auto simp add: map_add_def split: option.splits)

lemma record_loop_extra_key:
  assumes "\<And>d t c. dec d t c =
                 (case dec Map.empty t c of Inl e \<Rightarrow> Inl e | Inr u \<Rightarrow> Inr (d ++ u))"
    and "\<And>t c u. dec Map.empty t c = Inr u \<Longrightarrow> k \<notin> dom u"
  shows "record_loop dec core i (d(k \<mapsto> v)) =
     (case record_loop dec core i d of Inl e \<Rightarrow> Inl e | Inr r \<Rightarrow> Inr (r(k \<mapsto> v)))"
  using assms
proof (induction dec core i d rule: record_loop.induct)
  case (1 dec core i d)
  note add = "1.prems"(1) and fresh = "1.prems"(2)
  show ?case
  proof (cases "i + 1 < length core")
    case True
    let ?t = "core ! i"
    let ?ln = "unat (core ! (i + 1))"
    let ?c = "take ?ln (drop (i + 2) core)"
    show ?thesis
    proof (cases "dec Map.empty ?t ?c")
      case (Inl e)
      have fail: "dec d ?t ?c = Inl e"
        by (subst add) (simp only: Inl sum.case)
      have fail': "dec (d(k \<mapsto> v)) ?t ?c = Inl e"
        by (subst add) (simp only: Inl sum.case)
      show ?thesis
        by (simp only: record_loop_step[OF True] fail fail' sum.case)
    next
      case (Inr u)
      have step: "dec d ?t ?c = Inr (d ++ u)"
        by (subst add) (simp only: Inr sum.case)
      have step': "dec (d(k \<mapsto> v)) ?t ?c = Inr ((d ++ u)(k \<mapsto> v))"
        by (subst add) (simp only: Inr sum.case map_add_upd_fresh[OF fresh[OF Inr]])
      have ih: "record_loop dec core (i + 2 + ?ln) ((d ++ u)(k \<mapsto> v)) =
          (case record_loop dec core (i + 2 + ?ln) (d ++ u) of
             Inl e \<Rightarrow> Inl e | Inr r \<Rightarrow> Inr (r(k \<mapsto> v)))"
        using True by (intro "1.IH"[OF _ _ refl refl refl step add fresh]) simp_all
      show ?thesis
        by (simp only: record_loop_step[OF True] step step' sum.case ih)
    qed
  next
    case False
    then consider (header) "i + 1 = length core" | (finished) "length core \<le> i" by linarith
    then show ?thesis
    proof cases
      case header
      show ?thesis by (simp only: record_loop_header[OF header] sum.case)
    next
      case finished
      show ?thesis by (simp only: record_loop_end[OF finished] sum.case)
    qed
  qed
qed

lemma sio_decode_dc_no_error_key:
  "sio_decode_dc Map.empty t c = Inr u \<Longrightarrow> ''error'' \<notin> dom u"
  by (clarsimp simp add: sio_decode_dc_def split: list.splits if_splits)

lemma parse_response_mismatch:
  assumes "2 \<le> length body" and "uint lo OR push_bit 8 (uint hi) \<noteq> calc_crc body"
  shows "parse_response (body @ [lo, hi, t1, t2]) = Inl (RuntimeError ''CRC mismatch'')"
proof -
  have core: "drop 2 (take (length (body @ [lo, hi, t1, t2]) - 2) (body @ [lo, hi, t1, t2]))
      = drop 2 body @ [lo, hi]"
    using assms(1) by simp
  have pre: "take (length (body @ [lo, hi, t1, t2]) - 4) (body @ [lo, hi, t1, t2]) = body"
    by simp
  show ?thesis
    unfolding parse_response_def core pre Let_def
    using assms(2) by (simp add: nth_append)
qed

lemma sio_parse_response_frame:
  assumes "2 \<le> length body"
  shows "sio_parse_response (body @ [lo, hi, 3, 250]) =
     sio_parse_loop (drop 2 body) 0
       (if calc_crc body AND 255 \<noteq> uint lo \<or> drop_bit 8 (calc_crc body) AND 255 \<noteq> uint hi
        then Map.empty(''error'' \<mapsto> PStr ''CRC_ERROR'') else Map.empty)"
proof -
  let ?r = "body @ [lo, hi, 3, 250]"
  have a: "?r ! (length ?r - 2) = 3" "?r ! (length ?r - 1) = 250"
    by (simp_all add: nth_append)
  have b: "take (length ?r - 2) ?r = body @ [lo, hi]"
    by simp
  have c: "(body @ [lo, hi]) ! (length (body @ [lo, hi]) - 2) = lo"
    "(body @ [lo, hi]) ! (length (body @ [lo, hi]) - 1) = hi"
    "take (length (body @ [lo, hi]) - 2) (body @ [lo, hi]) = body"
    by (simp_all add: nth_append)
  have d: "\<not> length ?r < 5" "\<not> length body < 2"
    using assms by auto
  show ?thesis
    unfolding sio_parse_response_def
    by (simp only: a b c d if_True if_False Let_def simp_thms)
qed

text \<open>
  Claim C8, as amended. For a reply \<open>body @ [lo, hi, t1, t2]\<close> whose transmitted
  checksum disagrees with the checksum of \<open>body\<close>: \<open>parse_response\<close> of \<open>driver.py\<close>
  raises \<open>RuntimeError("CRC mismatch")\<close> and returns nothing; \<open>parse_response\<close> of
  \<open>serial_io/driver.py\<close> decodes the records exactly as it does without a mismatch
  and adds \<open>error = "CRC_ERROR"\<close> to the result.
\<close>

theorem checksum_mismatch_handling:
  assumes "2 \<le> length body"
  shows "(uint lo OR push_bit 8 (uint hi) \<noteq> calc_crc body \<longrightarrow>
            parse_response (body @ [lo, hi, t1, t2]) = Inl (RuntimeError ''CRC mismatch''))
       \<and> (calc_crc body AND 255 \<noteq> uint lo \<or> drop_bit 8 (calc_crc body) AND 255 \<noteq> uint hi \<longrightarrow>
            sio_parse_response (body @ [lo, hi, 3, 250]) =
              (case sio_parse_loop (drop 2 body) 0 Map.empty of
                 Inl e \<Rightarrow> Inl e
               | Inr d \<Rightarrow> Inr (d(''error'' \<mapsto> PStr ''CRC_ERROR''))))"
proof -
  have "sio_parse_loop core i (Map.empty(''error'' \<mapsto> v)) =
      (case sio_parse_loop core i Map.empty of Inl e \<Rightarrow> Inl e | Inr r \<Rightarrow> Inr (r(''error'' \<mapsto> v)))"
    for core i v
    unfolding sio_parse_loop_def
    by (rule record_loop_extra_key[OF sio_decode_dc_add sio_decode_dc_no_error_key])
  then show ?thesis
    using parse_response_mismatch[OF assms, of lo hi t1 t2] sio_parse_response_frame[OF assms, of lo hi]
    by simp
qed

lemma crc_frame_status: "calc_crc [81, 144, 1, 1, 2] = 23999"
  by code_simp

lemma sio_status_text_2: "sio_status_text 2 = ''AUTHORIZED''"
  by (simp add: sio_status_text_def sio_status_names_def)

theorem checksum_mismatch_handling_witness:
  "parse_response [81, 144, 1, 1, 2, 0, 0, 3, 250] = Inl (RuntimeError ''CRC mismatch'')
   \<and> sio_parse_response [81, 144, 1, 1, 2, 0, 0, 3, 250] =
       Inr [''pump_status_code'' \<mapsto> PInt 2, ''pump_status'' \<mapsto> PStr ''AUTHORIZED'',
            ''error'' \<mapsto> PStr ''CRC_ERROR'']"
  using checksum_mismatch_handling[of "[81, 144, 1, 1, 2]" 0 0 3 250]
  by (simp add: crc_frame_status sio_parse_loop_def record_loop.simps sio_decode_dc_def
      sio_status_text_2)

text \<open>
  Claim C8 as stated fails for \<open>driver.py\<close>: the checksum of this reply is wrong, its
  status record is decodable, and \<open>parse_response\<close> returns no data.
\<close>

theorem checksum_mismatch_raises:
  "calc_crc [81, 144, 1, 1, 2] \<noteq> 0
   \<and> parse_response [81, 144, 1, 1, 2, 0, 0, 3, 250] = Inl (RuntimeError ''CRC mismatch'')
   \<and> parse_loop [1, 1, 2, 0, 0] 0 Map.empty = Inr [''pump_status'' \<mapsto> PStr ''AUTHORIZED'']"
  by (simp add: parse_response_def crc_frame_status parse_loop_def record_loop.simps
      decode_dc_def status_text_2)

subsection \<open>Repeated transaction codes\<close>

lemma crc_frame_two_identities: "calc_crc [81, 144, 9, 1, 171, 9, 1, 142] = 56073"
  by code_simp

text \<open>
  Claim C10 on the code: the reply \<open>51 90 09 01 AB 09 01 8E 09 DB 03 FA\<close> has a valid
  checksum (\<open>0xDB09 = 56073\<close>) and two identity records, both within bounds; the last
  one alone decodes to the identity \<open>8E\<close>. \<open>parse_response\<close> of \<open>driver.py\<close> returns
  the empty identity: \<open>core = resp[2:-2]\<close> keeps the two checksum bytes, the loop
  reads them as one more record of code \<open>0x09\<close>, and its empty payload overwrites the
  identity.
\<close>

theorem checksum_bytes_read_as_record:
  "calc_crc [81, 144, 9, 1, 171, 9, 1, 142] = 56073
   \<and> (9 :: int) OR push_bit 8 219 = 56073
   \<and> parse_response [81, 144, 9, 1, 171, 9, 1, 142, 9, 219, 3, 250]
       = Inr [''pump_identity'' \<mapsto> PStr []]
   \<and> decode_dc Map.empty 9 [142] = Inr [''pump_identity'' \<mapsto> PStr ''8E'']"
  by (simp add: parse_response_def crc_frame_two_identities parse_loop_def record_loop.simps
      decode_dc_def format_02X_def digit_char_def)

end
